theory Spec2Isabelle
  imports Complex_Main "HOL-Library.Word"
begin

section \<open>JavaScript values\<close>

text \<open>
  A JavaScript string is a sequence of UTF-16 code units and \<open>.length\<close> counts
  code units.  ASCII literals of the source are embedded with \<open>str\<close>.
\<close>

type_synonym jsstring = "16 word list"

definition cu :: "char \<Rightarrow> 16 word" where
  "cu c = of_nat (of_char c)"

definition str :: "string \<Rightarrow> jsstring" where
  "str s = map cu s"

text \<open>Template literals print a number in decimal: \<open>`${index + 1}`\<close>.\<close>

definition digit :: "nat \<Rightarrow> 16 word" where
  "digit d = of_nat (48 + d)"

function show_nat :: "nat \<Rightarrow> jsstring" where
  "show_nat n = (if n < 10 then [digit n] else show_nat (n div 10) @ [digit (n mod 10)])"
  by pat_completeness auto
termination
  by (relation "measure id") auto

text \<open>
  \<open>s.split(sep)\<close> cuts at the leftmost occurrences of \<open>sep\<close>, one after the other;
  \<open>first_occ sep s\<close> is the text before and after the first occurrence.
\<close>

fun strip_prefix :: "'a list \<Rightarrow> 'a list \<Rightarrow> 'a list option" where
  "strip_prefix [] s = Some s"
| "strip_prefix (p # ps) [] = None"
| "strip_prefix (p # ps) (c # cs) = (if p = c then strip_prefix ps cs else None)"

fun first_occ :: "'a list \<Rightarrow> 'a list \<Rightarrow> ('a list \<times> 'a list) option" where
  "first_occ sep [] = (if sep = [] then Some ([], []) else None)"
| "first_occ sep (c # cs) =
     (case strip_prefix sep (c # cs) of
        Some rest \<Rightarrow> Some ([], rest)
      | None \<Rightarrow>
          (case first_occ sep cs of
             None \<Rightarrow> None
           | Some (a, b) \<Rightarrow> Some (c # a, b)))"

function split_js :: "'a list \<Rightarrow> 'a list \<Rightarrow> 'a list list" where
  "split_js sep s =
     (if sep = [] then map (\<lambda>c. [c]) s
      else case first_occ sep s of
             None \<Rightarrow> [s]
           | Some (a, b) \<Rightarrow> a # split_js sep b)"
  by pat_completeness auto
termination
proof (relation "measure (\<lambda>(sep, s). length s)", simp)
  fix sep s :: "'a list" and x a b
  assume sep: "sep \<noteq> []" and occ: "first_occ sep s = Some x" "(a, b) = x"
  have sp: "strip_prefix p t = Some r \<Longrightarrow> t = p @ r" for p t r :: "'a list"
    by (induction p t rule: strip_prefix.induct) (auto split: if_splits)
  have "first_occ sep t = Some (u, v) \<Longrightarrow> t = u @ sep @ v" for t u v
    by (induction t arbitrary: u) (auto split: if_splits option.splits dest: sp)
  with occ have "s = a @ sep @ b" by simp
  with sep show "((sep, b), (sep, s)) \<in> measure (\<lambda>(sep, s). length s)"
    by (cases sep) auto
qed

declare split_js.simps [simp del] show_nat.simps [simp del]

text \<open>\<open>xs.join(sep)\<close>.\<close>

fun join :: "'a list \<Rightarrow> 'a list list \<Rightarrow> 'a list" where
  "join sep [] = []"
| "join sep [x] = x"
| "join sep (x # y # ys) = x @ sep @ join sep (y # ys)"

text \<open>
  \<open>s.replace(pattern, replacement)\<close> with a string pattern replaces the first
  occurrence; in the replacement \<open>$$\<close> stands for a dollar sign, \<open>$&\<close> for the
  matched text, \<open>$`\<close> and \<open>$'\<close> for the text before and after the match.
\<close>

fun expand_replacement :: "jsstring \<Rightarrow> jsstring \<Rightarrow> jsstring \<Rightarrow> jsstring \<Rightarrow> jsstring" where
  "expand_replacement matched before after (c # d # r) =
     (if c = cu CHR ''$'' then
        (if d = cu CHR ''$'' then cu CHR ''$'' # expand_replacement matched before after r
         else if d = cu CHR ''&'' then matched @ expand_replacement matched before after r
         else if d = cu CHR 0x60 then before @ expand_replacement matched before after r
         else if d = cu CHR 0x27 then after @ expand_replacement matched before after r
         else c # expand_replacement matched before after (d # r))
      else c # expand_replacement matched before after (d # r))"
| "expand_replacement matched before after r = r"

definition js_replace :: "jsstring \<Rightarrow> jsstring \<Rightarrow> jsstring \<Rightarrow> jsstring" where
  "js_replace pat rep s =
     (case first_occ pat s of
        None \<Rightarrow> s
      | Some (a, b) \<Rightarrow> a @ expand_replacement pat a b rep @ b)"

text \<open>
  A thrown value is an \<open>Error\<close> with its message, or something else; every
  \<open>catch\<close> of the sources reads it as
  \<open>error instanceof Error ? error.message : fallback\<close>.
\<close>

datatype thrown = ErrorObj jsstring | NonError

definition message_or :: "thrown \<Rightarrow> jsstring \<Rightarrow> jsstring" where
  "message_or e fallback = (case e of ErrorObj m \<Rightarrow> m | NonError \<Rightarrow> fallback)"

text \<open>\<open>a || b\<close> on an optional string: the empty string and \<open>undefined\<close> are falsy.\<close>

definition or_else :: "jsstring option \<Rightarrow> jsstring \<Rightarrow> jsstring" where
  "or_else a b = (case a of None \<Rightarrow> b | Some x \<Rightarrow> if x = [] then b else x)"

section \<open>HTTP exchanges and effects\<close>

text \<open>
  What the code reads from a \<open>Response\<close>: the status (\<open>ok\<close> is status 200 to
  299), the status text, and the body through \<open>text()\<close> or \<open>json()\<close>, each of
  which may reject.  \<open>body_json\<close> is the body read at the payload type the caller
  declares; \<open>body_error\<close> is the \<open>error\<close> field of the body read as JSON, if it
  has one (\<open>Inl\<close>: the body is not JSON).
\<close>

record 'a response =
  status :: nat
  statusText :: jsstring
  body_text :: "thrown + jsstring"
  body_json :: "thrown + 'a"
  body_error :: "thrown + jsstring option"

definition ok :: "('a, 'z) response_scheme \<Rightarrow> bool" where
  "ok r \<longleftrightarrow> 200 \<le> status r \<and> status r \<le> 299"

datatype 'a fetched = Rejected thrown | Resolved "'a response"

text \<open>
  The effects of an async function, in program order.  \<open>await fetch(q)\<close> issues the
  request and resumes when it has settled; \<open>await new Promise(r => setTimeout(r, ms))\<close>
  sleeps; \<open>Ui\<close> is a React state setter.  The network answers a request by an oracle
  that may depend on the moment (the length of the trace so far) and on the request.
\<close>

datatype ('q, 'u) event = Issued 'q | Settled 'q | Sleep nat | Ui 'u

type_synonym ('q, 'a) network = "nat \<Rightarrow> 'q \<Rightarrow> 'a fetched"

definition fetch ::
  "('p, 'a) network \<Rightarrow> ('p \<Rightarrow> 'q) \<Rightarrow> 'p \<Rightarrow> ('q, 'u) event list \<Rightarrow> 'a fetched \<times> ('q, 'u) event list" where
  "fetch net kind q tr = (net (length tr) q, tr @ [Issued (kind q), Settled (kind q)])"

definition issued :: "('q, 'u) event list \<Rightarrow> 'q list" where
  "issued tr = concat (map (\<lambda>e. case e of Issued q \<Rightarrow> [q] | _ \<Rightarrow> []) tr)"

text \<open>\<open>NextResponse.json(body, { status })\<close>; the status is 200 when none is given.\<close>

datatype 'a route_body = Json_error jsstring | Json_ok 'a

record 'a next_response =
  nr_body :: "'a route_body"
  nr_status :: nat

section \<open>The research records\<close>

record link =
  title :: jsstring
  url :: jsstring

record ExaSearchResult = link +
  publishedDate :: "jsstring option"
  author :: "jsstring option"
  result_summary :: jsstring
  result_text :: jsstring

record named =
  name :: jsstring

record outcome = named +
  error :: "jsstring option"

record ExaPersonInfo = outcome +
  searchResults :: "ExaSearchResult list"

record PersonSummary = outcome +
  summary :: jsstring
  sources :: "link list option"

section \<open>app/api/exa/search/route.ts\<close>

text \<open>
  The provider's reply: \<open>results\<close>, each an object with at least the six fields of
  \<open>ExaApiResult\<close> (any extension of the record).
\<close>

record 'z ExaApiResponse =
  results :: "'z ExaSearchResult_scheme list"

record exa_request =
  query :: jsstring
  numResults :: nat
  search_type :: jsstring
  contents_text :: bool
  contents_summary_query :: jsstring

record exa_call =
  call_url :: jsstring
  x_api_key :: jsstring
  call_body :: exa_request

definition api_key_missing :: "ExaPersonInfo next_response" where
  "api_key_missing = \<lparr>nr_body = Json_error (str ''API key not configured''), nr_status = 500\<rparr>"

definition exa_request_failed :: "ExaPersonInfo next_response" where
  "exa_request_failed =
     \<lparr>nr_body = Json_error (str ''Failed to make Exa API request''), nr_status = 500\<rparr>"

text \<open>
  \<open>NextResponse.json(body, {status})\<close> builds a \<open>Response\<close> with a body.  The
  constructor throws a \<open>RangeError\<close> for a status outside 200..599 and a
  \<open>TypeError\<close> for a null-body status (101, 103, 204, 205, 304).
\<close>

definition json_status_ok :: "nat \<Rightarrow> bool" where
  "json_status_ok st \<longleftrightarrow> 200 \<le> st \<and> st \<le> 599 \<and> st \<notin> {101, 103, 204, 205, 304}"

text \<open>
  \<open>POST(request)\<close>.  \<open>req\<close> is what \<open>await request.json()\<close> gives: it rejects, or
  it is the body's \<open>name\<close>.  \<open>apiKey\<close> is \<open>process.env.EXA_API_KEY\<close>.  On a non-ok
  reply the answer takes the provider's status; when no JSON response can carry that
  status, building it throws into the inner \<open>catch\<close>.
\<close>

definition exa_POST ::
  "thrown + jsstring \<Rightarrow> jsstring option \<Rightarrow> (exa_call, 'z ExaApiResponse) network \<Rightarrow>
   (exa_call, 'u) event list \<Rightarrow> ExaPersonInfo next_response \<times> (exa_call, 'u) event list" where
  "exa_POST req apiKey net tr =
     (case req of
        Inl e \<Rightarrow> (\<lparr>nr_body = Json_error (str ''Invalid request''), nr_status = 400\<rparr>, tr)
      | Inr nm \<Rightarrow>
          (case apiKey of
             None \<Rightarrow> (api_key_missing, tr)
           | Some k \<Rightarrow>
               if k = [] then (api_key_missing, tr)
               else
                 (let searchQuery = nm @ str '' professional background experience career'';
                      requestBody =
                        \<lparr>query = searchQuery, numResults = 5, search_type = str ''keyword'',
                         contents_text = True,
                         contents_summary_query =
                           str ''Summarize this person's professional background and experience''\<rparr>;
                      (r, tr') =
                        fetch net id
                          \<lparr>call_url = str ''https://api.exa.ai/search'', x_api_key = k,
                           call_body = requestBody\<rparr> tr
                  in case r of
                       Rejected e \<Rightarrow> (exa_request_failed, tr')
                     | Resolved resp \<Rightarrow>
                         if \<not> ok resp then
                           (case body_text resp of
                              Inl e \<Rightarrow> (exa_request_failed, tr')
                            | Inr errorText \<Rightarrow>
                                if json_status_ok (status resp)
                                then (\<lparr>nr_body = Json_error (str ''Exa API error: '' @ errorText),
                                        nr_status = status resp\<rparr>, tr')
                                else (exa_request_failed, tr'))
                         else
                           (case body_json resp of
                              Inl e \<Rightarrow> (exa_request_failed, tr')
                            | Inr data \<Rightarrow>
                                (\<lparr>nr_body =
                                    Json_ok
                                      \<lparr>name = nm, error = None,
                                       searchResults =
                                         map (\<lambda>result.
                                                \<lparr>title = title result, url = url result,
                                                 publishedDate = publishedDate result,
                                                 author = author result,
                                                 result_summary = result_summary result,
                                                 result_text = result_text result\<rparr>)
                                           (results data)\<rparr>,
                                  nr_status = 200\<rparr>, tr')))))"

section \<open>app/api/summary/route.ts\<close>

definition nl :: jsstring where
  "nl = [10]"

definition dq :: jsstring where
  "dq = [34]"

definition SUMMARY_PROMPT :: jsstring where
  "SUMMARY_PROMPT = join nl
     [str ''Please analyze the following text about a person and provide a professional summary. For each key point in your summary, reference the source by including a [Source X] tag, where X corresponds to the numbered source in the list below.'',
      [],
      str ''Focus on:'',
      str ''1. Their current role and company'',
      str ''2. Key previous experience and roles'',
      str ''3. Notable achievements and expertise'',
      str ''4. Educational background (if mentioned)'',
      str ''5. Any relevant projects or initiatives they're working on'',
      str ''6. Any interesting facts that will help in a meeting with this person'',
      [],
      str ''Format your response with inline source references like this example:'',
      dq @ str ''John is currently the CEO of TechCorp [Source 1]. Previously, he worked at Google as a Senior Engineer [Source 2], where he led the development of...'' @ dq,
      [],
      str ''Here are the sources:'',
      str ''{{SOURCES}}'',
      [],
      str ''Text to analyze:'',
      str ''{{TEXT}}'']"

text \<open>The tag \<open>`[Source ${index + 1}]`\<close>, written the same way in the route and in \<open>ExaResults\<close>.\<close>

definition sourceTag :: "nat \<Rightarrow> jsstring" where
  "sourceTag index = str ''[Source '' @ show_nat (index + 1) @ str '']''"

definition sourcesList :: "ExaSearchResult list \<Rightarrow> jsstring" where
  "sourcesList rs =
     join nl
       (map (\<lambda>(index, result).
               sourceTag index @ str '' '' @ title result @ str '' ('' @ url result @ str '')'')
          (enumerate 0 rs))"

definition combinedText :: "ExaSearchResult list \<Rightarrow> jsstring" where
  "combinedText rs =
     join (nl @ nl)
       (map (\<lambda>(index, result). sourceTag index @ nl @ result_text result) (enumerate 0 rs))"

definition finalPrompt :: "ExaSearchResult list \<Rightarrow> jsstring" where
  "finalPrompt rs =
     js_replace (str ''{{TEXT}}'') (combinedText rs)
       (js_replace (str ''{{SOURCES}}'') (sourcesList rs) SUMMARY_PROMPT)"

text \<open>
  Reading aids: the text of the template before \<open>{{SOURCES}}\<close> and between
  \<open>{{SOURCES}}\<close> and \<open>{{TEXT}}\<close>, which ends the template.
\<close>

definition prompt_head :: jsstring where
  "prompt_head = join nl
     [str ''Please analyze the following text about a person and provide a professional summary. For each key point in your summary, reference the source by including a [Source X] tag, where X corresponds to the numbered source in the list below.'',
      [],
      str ''Focus on:'',
      str ''1. Their current role and company'',
      str ''2. Key previous experience and roles'',
      str ''3. Notable achievements and expertise'',
      str ''4. Educational background (if mentioned)'',
      str ''5. Any relevant projects or initiatives they're working on'',
      str ''6. Any interesting facts that will help in a meeting with this person'',
      [],
      str ''Format your response with inline source references like this example:'',
      dq @ str ''John is currently the CEO of TechCorp [Source 1]. Previously, he worked at Google as a Senior Engineer [Source 2], where he led the development of...'' @ dq,
      [],
      str ''Here are the sources:'',
      []]"

definition prompt_mid :: jsstring where
  "prompt_mid = join nl [[], [], str ''Text to analyze:'', []]"

record openai_call =
  openai_url :: jsstring
  authorization :: jsstring
  model :: jsstring
  messages :: "(jsstring \<times> jsstring) list"
  temperature :: rat

text \<open>The reply: the \<open>message.content\<close> of each of \<open>data.choices\<close>.\<close>

record openai_reply =
  choices :: "jsstring list"

definition summary_failed :: "thrown \<Rightarrow> PersonSummary next_response" where
  "summary_failed e =
     \<lparr>nr_body = Json_error (message_or e (str ''Failed to generate summary'')), nr_status = 500\<rparr>"

text \<open>
  \<open>POST(request)\<close>.  \<open>req\<close> is the \<open>personInfo\<close> of \<open>await request.json()\<close>, or
  what reading it throws; \<open>apiKey\<close> is \<open>process.env.OPENAI_API_KEY\<close>.  On a non-ok
  reply \<open>body_error\<close> is the body's \<open>error.message\<close>.
\<close>

definition summary_POST ::
  "thrown + ExaPersonInfo \<Rightarrow> jsstring option \<Rightarrow> (openai_call, openai_reply) network \<Rightarrow>
   (openai_call, 'u) event list \<Rightarrow> PersonSummary next_response \<times> (openai_call, 'u) event list" where
  "summary_POST req apiKey net tr =
     (case req of
        Inl e \<Rightarrow> (summary_failed e, tr)
      | Inr personInfo \<Rightarrow>
          (let (r, tr') =
                 fetch net id
                   \<lparr>openai_url = str ''https://api.openai.com/v1/chat/completions'',
                    authorization =
                      str ''Bearer '' @ (case apiKey of None \<Rightarrow> str ''undefined'' | Some k \<Rightarrow> k),
                    model = str ''gpt-4o'',
                    messages =
                      [(str ''system'',
                        str ''You are a professional business analyst creating detailed summaries about people for meeting preparation. Include source references for all key information.''),
                       (str ''user'', finalPrompt (searchResults personInfo))],
                    temperature = 3 / 10\<rparr> tr
           in case r of
                Rejected e \<Rightarrow> (summary_failed e, tr')
              | Resolved resp \<Rightarrow>
                  if \<not> ok resp then
                    (let errorData = (case body_error resp of Inl e \<Rightarrow> None | Inr f \<Rightarrow> f)
                     in (summary_failed
                           (ErrorObj
                              (or_else errorData
                                 (str ''OpenAI API error: '' @ show_nat (status resp) @ str '' '' @
                                  statusText resp))), tr'))
                  else
                    (case body_json resp of
                       Inl e \<Rightarrow> (summary_failed e, tr')
                     | Inr data \<Rightarrow>
                         (case choices data of
                            [] \<Rightarrow>
                              (summary_failed
                                 (ErrorObj (str ''Cannot read properties of undefined (reading 'message')'')),
                               tr')
                          | content # others \<Rightarrow>
                              (\<lparr>nr_body =
                                  Json_ok
                                    \<lparr>name = name personInfo, error = None, summary = content,
                                     sources =
                                       Some (map (\<lambda>result. \<lparr>title = title result, url = url result\<rparr>)
                                               (searchResults personInfo))\<rparr>,
                                nr_status = 200\<rparr>, tr')))))"

section \<open>components/ExaResults.tsx: links in the summary\<close>

text \<open>A React child: a string, or the \<open><a></a>\<close> element around a source tag.\<close>

datatype part = Text jsstring | Anchor (href: jsstring) (anchor_title: jsstring) (label: jsstring)

text \<open>The \<open>reduce\<close> over the pieces of a split: the link goes between two pieces.\<close>

fun link_pieces :: "part \<Rightarrow> jsstring list \<Rightarrow> part list" where
  "link_pieces a [] = []"
| "link_pieces a (t # ts) = Text t # concat (map (\<lambda>x. [a, Text x]) ts)"

definition link_source :: "nat \<times> link \<Rightarrow> part list \<Rightarrow> part list" where
  "link_source = (\<lambda>(index, source) parts.
     concat (map (\<lambda>part.
        case part of
          Text t \<Rightarrow>
            (let split = split_js (sourceTag index) t
             in if length split = 1 then [Text (split ! 0)]
                else link_pieces (Anchor (url source) (title source) (sourceTag index)) split)
        | Anchor h t l \<Rightarrow> [part]) parts))"

datatype rendered = Plain jsstring | Prose "part list"

definition renderSummaryWithLinks :: "jsstring \<Rightarrow> link list option \<Rightarrow> rendered" where
  "renderSummaryWithLinks summ srcs =
     (case srcs of
        None \<Rightarrow> Plain summ
      | Some ss \<Rightarrow> Prose (fold link_source (enumerate 0 ss) [Text summ]))"

text \<open>The text a list of parts shows.\<close>

definition shown :: "part list \<Rightarrow> jsstring" where
  "shown parts = concat (map (\<lambda>p. case p of Text t \<Rightarrow> t | Anchor h t l \<Rightarrow> l) parts)"

text \<open>
  What \<open>link_source\<close> does to one string part.  Two strings are apart when two
  occurrences of them in one text are the same occurrence or do not overlap.  An
  occurrence of a tag at the position after \<open>pre\<close> is linked when the parts hold the
  anchor at that position, and pending when it still lies inside a string part.
\<close>

definition link_text :: "jsstring \<Rightarrow> part \<Rightarrow> jsstring \<Rightarrow> part list" where
  "link_text sep a t =
     (let split = split_js sep t
      in if length split = 1 then [Text (split ! 0)] else link_pieces a split)"

definition apart :: "'a list \<Rightarrow> 'a list \<Rightarrow> bool" where
  "apart x y \<longleftrightarrow>
     (\<forall>p q p' q'. p @ x @ q = p' @ y @ q' \<longrightarrow>
        length p + length x \<le> length p' \<or> length p' + length y \<le> length p \<or>
        (p = p' \<and> x = y))"

definition linked :: "part \<Rightarrow> jsstring \<Rightarrow> part list \<Rightarrow> bool" where
  "linked a pre parts \<longleftrightarrow> (\<exists>before after. parts = before @ [a] @ after \<and> shown before = pre)"

definition pending :: "jsstring \<Rightarrow> jsstring \<Rightarrow> part list \<Rightarrow> bool" where
  "pending tag pre parts \<longleftrightarrow>
     (\<exists>before u1 u2 after. parts = before @ [Text (u1 @ tag @ u2)] @ after \<and> shown before @ u1 = pre)"

section \<open>services/exaService.ts\<close>

datatype client_request = SearchRequest jsstring | SummaryRequest ExaPersonInfo

text \<open>
  The body of \<open>searchPerson\<close>'s \<open>try\<close>: \<open>Inl\<close> is what it throws.  On a
  non-ok status the inner \<open>try\<close> parses the body and throws in every case; its own
  \<open>catch\<close> swallows that and throws \<open>API error: <the raw body>\<close>.
\<close>

definition searchPerson_try :: "ExaPersonInfo fetched \<Rightarrow> thrown + ExaPersonInfo" where
  "searchPerson_try r =
     (case r of
        Rejected e \<Rightarrow> Inl e
      | Resolved resp \<Rightarrow>
          if \<not> ok resp then
            (case body_text resp of
               Inl e \<Rightarrow> Inl e
             | Inr errorData \<Rightarrow>
                 (let inner :: thrown + ExaPersonInfo =
                        (case body_error resp of
                           Inl e \<Rightarrow> Inl e
                         | Inr jsonError \<Rightarrow>
                             Inl (ErrorObj (or_else jsonError (str ''API error: '' @ statusText resp))))
                  in case inner of
                       Inl e \<Rightarrow> Inl (ErrorObj (str ''API error: '' @ errorData))
                     | Inr d \<Rightarrow> Inr d))
          else
            (case body_json resp of
               Inl e \<Rightarrow> Inl e
             | Inr data \<Rightarrow> Inr data))"

definition searchPerson_result :: "jsstring \<Rightarrow> ExaPersonInfo fetched \<Rightarrow> ExaPersonInfo" where
  "searchPerson_result nm r =
     (case searchPerson_try r of
        Inr data \<Rightarrow> data
      | Inl e \<Rightarrow>
          \<lparr>name = nm, error = Some (message_or e (str ''Failed to search for person'')),
           searchResults = []\<rparr>)"

definition searchPerson ::
  "(jsstring, ExaPersonInfo) network \<Rightarrow> jsstring \<Rightarrow> (client_request, 'u) event list \<Rightarrow>
   ExaPersonInfo \<times> (client_request, 'u) event list" where
  "searchPerson net nm tr =
     (let (r, tr') = fetch net SearchRequest nm tr in (searchPerson_result nm r, tr'))"

section \<open>services/summaryService.ts\<close>

definition generatePersonSummary_try :: "PersonSummary fetched \<Rightarrow> thrown + PersonSummary" where
  "generatePersonSummary_try r =
     (case r of
        Rejected e \<Rightarrow> Inl e
      | Resolved resp \<Rightarrow>
          if \<not> ok resp then
            (let errorData = (case body_error resp of Inl e \<Rightarrow> None | Inr f \<Rightarrow> f)
             in Inl (ErrorObj
                  (or_else errorData
                     (str ''API error: '' @ show_nat (status resp) @ str '' '' @ statusText resp))))
          else
            (case body_json resp of
               Inl e \<Rightarrow> Inl e
             | Inr data \<Rightarrow> Inr data))"

definition generatePersonSummary_result :: "ExaPersonInfo \<Rightarrow> PersonSummary fetched \<Rightarrow> PersonSummary" where
  "generatePersonSummary_result personInfo r =
     (case generatePersonSummary_try r of
        Inr data \<Rightarrow> data
      | Inl e \<Rightarrow>
          \<lparr>name = name personInfo,
           error = Some (message_or e (str ''Failed to generate summary'')),
           summary = [], sources = None\<rparr>)"

definition generatePersonSummary ::
  "(ExaPersonInfo, PersonSummary) network \<Rightarrow> ExaPersonInfo \<Rightarrow> (client_request, 'u) event list \<Rightarrow>
   PersonSummary \<times> (client_request, 'u) event list" where
  "generatePersonSummary net personInfo tr =
     (let (r, tr') = fetch net SummaryRequest personInfo tr
      in (generatePersonSummary_result personInfo r, tr'))"




section \<open>services/docsService.ts: the batchUpdate requests\<close>

text \<open>
  The requests \<open>createMeetingDoc\<close> builds between creating the document and
  sending \<open>batchUpdate\<close>.  A paragraph style request also carries the constant
  \<open>spaceBelow\<close> of 10 PT and its \<open>fields\<close>, a text style request the constant
  font size and colour; only the ranges, the named style and the link are kept here.
  \<open>today\<close> is \<open>new Date().toLocaleDateString()\<close>.  The source pushes each section
  inline; the sections that are written the same way share a definition.
  \<open>placed pos lr rs\<close> reads a request list from the insertion index \<open>pos\<close>: every
  insertion is non-empty and goes to the running index, every style range lies in
  \<open>lr\<close>, the range of the latest insertion.
\<close>

datatype DocumentRequest =
    InsertText (location: nat) (inserted: jsstring)
  | UpdateParagraphStyle (startIndex: nat) (endIndex: nat) (namedStyleType: jsstring)
  | UpdateTextStyle (startIndex: nat) (endIndex: nat) (link_url: jsstring)

record builder =
  currentIndex :: nat
  requests :: "DocumentRequest list"

definition push :: "DocumentRequest list \<Rightarrow> builder \<Rightarrow> builder" where
  "push rs b = b\<lparr>requests := requests b @ rs\<rparr>"

definition advance :: "nat \<Rightarrow> builder \<Rightarrow> builder" where
  "advance n b = b\<lparr>currentIndex := currentIndex b + n\<rparr>"

definition bullet :: "16 word" where
  "bullet = 0x2022"

definition title_section :: "jsstring \<Rightarrow> builder \<Rightarrow> builder" where
  "title_section titleText b =
     (let titleLength = length titleText
      in advance titleLength
           (push [InsertText (currentIndex b) titleText,
                  UpdateParagraphStyle (currentIndex b) (currentIndex b + titleLength)
                    (str ''HEADING_1'')] b))"

definition heading_section :: "jsstring \<Rightarrow> builder \<Rightarrow> builder" where
  "heading_section headerText b =
     advance (length headerText)
       (push [InsertText (currentIndex b) headerText,
              UpdateParagraphStyle (currentIndex b) (currentIndex b + length headerText - 1)
                (str ''HEADING_2'')] b)"

definition bullets_section :: "jsstring \<Rightarrow> builder \<Rightarrow> builder" where
  "bullets_section bulletPoints b =
     advance (length bulletPoints) (push [InsertText (currentIndex b) bulletPoints] b)"

definition summary_section :: "jsstring \<Rightarrow> builder \<Rightarrow> builder" where
  "summary_section summaryText b =
     advance (length summaryText)
       (push [InsertText (currentIndex b) summaryText,
              UpdateParagraphStyle (currentIndex b) (currentIndex b + length summaryText)
                (str ''NORMAL_TEXT'')] b)"

definition source_section :: "nat \<times> link \<Rightarrow> builder \<Rightarrow> builder" where
  "source_section = (\<lambda>(index, source) b.
     (let bulletText = (show_nat (index + 1) @ str ''.'') @ str '' '';
          sourceText = title source @ nl;
          b1 = advance (length bulletText) (push [InsertText (currentIndex b) bulletText] b)
      in advance (length sourceText)
           (push [InsertText (currentIndex b1) sourceText,
                  UpdateTextStyle (currentIndex b1) (currentIndex b1 + length (title source))
                    (url source)] b1)))"

definition document_requests :: "PersonSummary \<Rightarrow> jsstring \<Rightarrow> DocumentRequest list" where
  "document_requests personSummary today =
     (let sourcesList = (case sources personSummary of None \<Rightarrow> [] | Some ss \<Rightarrow> enumerate 0 ss);
          titleText = name personSummary @ str '' '' @ today @ str '' - Meeting Notes'' @ nl;
          b0 = \<lparr>currentIndex = 1, requests = []\<rparr>;
          b1 = title_section titleText b0;
          b2 = heading_section (str ''Key Takeaways'' @ nl @ nl) b1;
          b3 = bullets_section
                 ([bullet] @ str '' '' @ nl @ [bullet] @ str '' '' @ nl @ [bullet] @ str '' '' @ nl @ nl) b2;
          b4 = heading_section (str ''Action Items'' @ nl @ nl) b3;
          b5 = bullets_section ([bullet] @ str '' '' @ nl @ [bullet] @ str '' '' @ nl @ nl) b4;
          b6 = heading_section (str ''Professional Summary'' @ nl @ nl) b5;
          b7 = summary_section (summary personSummary @ nl @ nl) b6;
          b8 = heading_section (str ''Sources'' @ nl @ nl) b7
      in requests (fold source_section sourcesList b8))"

definition inserted_length :: "DocumentRequest list \<Rightarrow> nat" where
  "inserted_length rs =
     sum_list (map (\<lambda>r. case r of InsertText i t \<Rightarrow> length t | _ \<Rightarrow> 0) rs)"

definition insertions :: "DocumentRequest list \<Rightarrow> DocumentRequest list" where
  "insertions rs = filter (\<lambda>r. case r of InsertText i t \<Rightarrow> True | _ \<Rightarrow> False) rs"

fun last_range :: "(nat \<times> nat) option \<Rightarrow> DocumentRequest list \<Rightarrow> (nat \<times> nat) option" where
  "last_range lr [] = lr"
| "last_range lr (InsertText i t # rs) = last_range (Some (i, i + length t)) rs"
| "last_range lr (UpdateParagraphStyle s e n # rs) = last_range lr rs"
| "last_range lr (UpdateTextStyle s e n # rs) = last_range lr rs"

fun placed :: "nat \<Rightarrow> (nat \<times> nat) option \<Rightarrow> DocumentRequest list \<Rightarrow> bool" where
  "placed pos lr [] = True"
| "placed pos lr (InsertText i t # rs) =
     (i = pos \<and> t \<noteq> [] \<and> placed (pos + length t) (Some (i, i + length t)) rs)"
| "placed pos lr (UpdateParagraphStyle s e n # rs) =
     ((case lr of None \<Rightarrow> False | Some (a, b) \<Rightarrow> a \<le> s \<and> s \<le> e \<and> e \<le> b) \<and> placed pos lr rs)"
| "placed pos lr (UpdateTextStyle s e n # rs) =
     ((case lr of None \<Rightarrow> False | Some (a, b) \<Rightarrow> a \<le> s \<and> s \<le> e \<and> e \<le> b) \<and> placed pos lr rs)"

definition good :: "builder \<Rightarrow> bool" where
  "good b \<longleftrightarrow> placed 1 None (requests b) \<and> currentIndex b = 1 + inserted_length (requests b)"

definition texts :: "builder \<Rightarrow> jsstring list" where
  "texts b = map inserted (insertions (requests b))"

section \<open>components/Calendar.tsx: attendee selection\<close>

record Attendee =
  email :: jsstring
  displayName :: "jsstring option"
  responseStatus :: "jsstring option"
  organizer :: "bool option"
  optional :: "bool option"

record selected_detail =
  eventId :: jsstring
  attendee :: Attendee

text \<open>What \<open>fetchContactDetails\<close> resolves to when it finds something.\<close>

record contact_details =
  firstName :: jsstring
  lastName :: jsstring
  profilePhotoUrl :: "jsstring option"
  company :: "jsstring option"
  org_title :: "jsstring option"

record EnhancedAttendee =
  base :: Attendee
  details :: contact_details

text \<open>
  A JavaScript \<open>Map\<close> iterates in insertion order, and \<open>handleContinue\<close> reads
  \<open>selectedAttendeesDetails.values()\<close> in that order, so the Map is an association
  list: \<open>set\<close> overwrites in place or appends, \<open>delete\<close> removes.
  The \<open>Set\<close> is only asked \<open>has\<close>, so it is a set.
\<close>

type_synonym ('k, 'v) jsmap = "('k \<times> 'v) list"

definition map_keys :: "('k, 'v) jsmap \<Rightarrow> 'k set" where
  "map_keys m = fst ` set m"

definition map_set :: "'k \<Rightarrow> 'v \<Rightarrow> ('k, 'v) jsmap \<Rightarrow> ('k, 'v) jsmap" where
  "map_set k v m =
     (if k \<in> map_keys m then map (\<lambda>(k', v'). if k' = k then (k', v) else (k', v')) m
      else m @ [(k, v)])"

definition map_delete :: "'k \<Rightarrow> ('k, 'v) jsmap \<Rightarrow> ('k, 'v) jsmap" where
  "map_delete k m = filter (\<lambda>(k', v'). k' \<noteq> k) m"

definition map_values :: "('k, 'v) jsmap \<Rightarrow> 'v list" where
  "map_values m = map snd m"

record selection_state =
  selectedAttendees :: "jsstring set"
  selectedAttendeesDetails :: "(jsstring, selected_detail) jsmap"
  enhancedAttendees :: "jsstring \<rightharpoonup> EnhancedAttendee"

definition initial_selection :: selection_state where
  "initial_selection =
     \<lparr>selectedAttendees = {}, selectedAttendeesDetails = [], enhancedAttendees = Map.empty\<rparr>"

definition attendeeKey :: "jsstring \<Rightarrow> Attendee \<Rightarrow> jsstring" where
  "attendeeKey eid a = eid @ str ''-'' @ email a"

text \<open>
  \<open>enhancedAttendees\<close> is a plain object, so \<open>enhancedAttendees[email]\<close> is truthy
  for an own entry and also for a property name of \<open>Object.prototype\<close>.
\<close>

definition object_prototype_keys :: "jsstring set" where
  "object_prototype_keys =
     str ` {''constructor'', ''__defineGetter__'', ''__defineSetter__'', ''hasOwnProperty'',
            ''__lookupGetter__'', ''__lookupSetter__'', ''isPrototypeOf'',
            ''propertyIsEnumerable'', ''toString'', ''valueOf'', ''__proto__'',
            ''toLocaleString''}"

definition cached :: "(jsstring \<rightharpoonup> EnhancedAttendee) \<Rightarrow> jsstring \<Rightarrow> bool" where
  "cached enh e \<longleftrightarrow> enh e \<noteq> None \<or> e \<in> object_prototype_keys"

text \<open>
  \<open>handleAttendeeSelect(eventId, attendee)\<close>.  The function is created by a render and
  closes over that render's \<open>selectedAttendees\<close>, \<open>selectedAttendeesDetails\<close> and
  \<open>enhancedAttendees\<close>: \<open>snap\<close>.  It copies the Set and the Map of \<open>snap\<close>,
  toggles the key in the copies, awaits \<open>fetchContactDetails\<close> in the adding branch
  when nothing is cached, and then writes the copies with \<open>setSelectedAttendees\<close> and
  \<open>setSelectedAttendeesDetails\<close> over whatever the state is by then: \<open>cur\<close>.  Only
  \<open>setEnhancedAttendees\<close> updates from the previous state.  The argument \<open>fetched\<close>
  is what \<open>fetchContactDetails(attendee.email)\<close> resolves to (it catches its own errors
  and resolves to \<open>null\<close> or a details object).  The two writes are taken together, as
  React batches them.
\<close>

definition handleAttendeeSelect ::
  "jsstring \<Rightarrow> Attendee \<Rightarrow> contact_details option \<Rightarrow> selection_state \<Rightarrow> selection_state \<Rightarrow>
   selection_state" where
  "handleAttendeeSelect eid a fetched snap cur =
     (let k = attendeeKey eid a in
      if k \<in> selectedAttendees snap
      then cur\<lparr>selectedAttendees := selectedAttendees snap - {k},
               selectedAttendeesDetails := map_delete k (selectedAttendeesDetails snap)\<rparr>
      else
        (let enh =
               (if cached (enhancedAttendees snap) (email a) then enhancedAttendees cur
                else
                  (case fetched of
                     None \<Rightarrow> enhancedAttendees cur
                   | Some d \<Rightarrow> (enhancedAttendees cur)(email a \<mapsto> \<lparr>base = a, details = d\<rparr>)))
         in cur\<lparr>selectedAttendees := insert k (selectedAttendees snap),
                 selectedAttendeesDetails :=
                   map_set k \<lparr>eventId = eid, attendee = a\<rparr> (selectedAttendeesDetails snap),
                 enhancedAttendees := enh\<rparr>))"

text \<open>The ``Clear All'' button.\<close>

definition clearAll :: "selection_state \<Rightarrow> selection_state" where
  "clearAll s = s\<lparr>selectedAttendees := {}, selectedAttendeesDetails := []\<rparr>"

text \<open>
  The states the component goes through, the latest last.  \<open>Select i\<close> is a call of
  \<open>handleAttendeeSelect\<close> made from the \<open>i\<close>-th of them (a call can only come from a
  render that exists) whose writes land now.
\<close>

datatype selection_action =
    Select nat jsstring Attendee "contact_details option"
  | ClearAll

fun apply_action :: "selection_state list \<Rightarrow> selection_action \<Rightarrow> selection_state list" where
  "apply_action hist (Select i eid a fetched) =
     hist @ [handleAttendeeSelect eid a fetched (hist ! (min i (length hist - 1))) (last hist)]"
| "apply_action hist ClearAll = hist @ [clearAll (last hist)]"

definition in_sync :: "selection_state \<Rightarrow> bool" where
  "in_sync s \<longleftrightarrow>
     selectedAttendees s = map_keys (selectedAttendeesDetails s) \<and>
     distinct (map fst (selectedAttendeesDetails s))"

section \<open>components/Calendar.tsx: the research pipeline\<close>

datatype stage = Searching | Analyzing | Summarizing

record LoadingState =
  stage :: stage
  person :: "jsstring option"
  progress :: nat
  total :: nat

datatype ui =
    SetIsSearching bool
  | SetShowResults bool
  | SetLoadingState "LoadingState option"
  | SetSearchResults "ExaPersonInfo list"
  | SetSummaries "PersonSummary list"

type_synonym trace = "(client_request, ui) event list"

record client_net =
  search_net :: "(jsstring, ExaPersonInfo) network"
  summary_net :: "(ExaPersonInfo, PersonSummary) network"

record research_target = named +
  target_email :: jsstring

text \<open>
  The name searched for: first and last name from the enhanced details when both are
  non-empty, else the display name, else the part of the email before the first \<open>@\<close>.
  For an email that names a property of \<open>Object.prototype\<close> and has no entry of its
  own, \<open>enhancedAttendees[email]?.firstName\<close> is \<open>undefined\<close> as for a missing entry.
\<close>

definition research_name :: "(jsstring \<rightharpoonup> EnhancedAttendee) \<Rightarrow> Attendee \<Rightarrow> jsstring" where
  "research_name enhanced a =
     (let fallback = or_else (displayName a) (takeWhile (\<lambda>c. c \<noteq> cu CHR ''@'') (email a))
      in case enhanced (email a) of
           None \<Rightarrow> fallback
         | Some e \<Rightarrow>
             if firstName (details e) \<noteq> [] \<and> lastName (details e) \<noteq> []
             then firstName (details e) @ str '' '' @ lastName (details e)
             else fallback)"

definition research_targets ::
  "(jsstring \<rightharpoonup> EnhancedAttendee) \<Rightarrow> (jsstring, selected_detail) jsmap \<Rightarrow> research_target list" where
  "research_targets enhanced m =
     map (\<lambda>d. \<lparr>name = research_name enhanced (attendee d), target_email = email (attendee d)\<rparr>)
       (map_values m)"

text \<open>The two \<open>for\<close> loops of \<open>handleContinue\<close>; \<open>i\<close> is the loop variable.\<close>

function search_loop ::
  "client_net \<Rightarrow> research_target list \<Rightarrow> nat \<Rightarrow> ExaPersonInfo list \<Rightarrow> trace \<Rightarrow>
   ExaPersonInfo list \<times> trace" where
  "search_loop net attendees i rs tr =
     (if i < length attendees then
        (let tr1 = tr @ [Ui (SetLoadingState (Some
                      \<lparr>stage = Searching, person = Some (name (attendees ! i)),
                       progress = i, total = length attendees\<rparr>)),
                    Sleep 100];
             (result, tr2) = searchPerson (search_net net) (name (attendees ! i)) tr1
         in search_loop net attendees (i + 1) (rs @ [result]) tr2)
      else (rs, tr))"
  by pat_completeness auto
termination
  by (relation "measure (\<lambda>(net, attendees, i, rs, tr). length attendees - i)") auto

function summary_loop ::
  "client_net \<Rightarrow> ExaPersonInfo list \<Rightarrow> nat \<Rightarrow> PersonSummary list \<Rightarrow> trace \<Rightarrow>
   PersonSummary list \<times> trace" where
  "summary_loop net rs i summariesResults tr =
     (if i < length rs then
        (let tr1 = tr @ [Ui (SetLoadingState (Some
                      \<lparr>stage = Summarizing, person = Some (name (rs ! i)),
                       progress = i, total = length rs\<rparr>)),
                    Sleep 100];
             (s, tr2) = generatePersonSummary (summary_net net) (rs ! i) tr1
         in summary_loop net rs (i + 1) (summariesResults @ [s]) tr2)
      else (summariesResults, tr))"
  by pat_completeness auto
termination
  by (relation "measure (\<lambda>(net, rs, i, summariesResults, tr). length rs - i)") auto

record run =
  run_results :: "ExaPersonInfo list"
  run_summaries :: "PersonSummary list"
  run_trace :: trace

text \<open>
  \<open>handleContinue\<close>.  With nothing selected it returns at once.  Otherwise the guard
  makes \<open>attendees\<close> non-empty, \<open>searchPerson\<close> and \<open>generatePersonSummary\<close> return
  values, and the first loop leaves one result per attendee, so \<open>attendees[0]\<close>,
  \<open>results[0]\<close> and the two last elements exist, the \<open>try\<close> block runs to its end
  and the \<open>finally\<close> block follows it.
\<close>

definition handleContinue ::
  "client_net \<Rightarrow> (jsstring \<rightharpoonup> EnhancedAttendee) \<Rightarrow> (jsstring, selected_detail) jsmap \<Rightarrow> run" where
  "handleContinue net enhanced selectedDetails =
     (if length selectedDetails = 0
      then \<lparr>run_results = [], run_summaries = [], run_trace = []\<rparr>
      else
        (let tr0 = [Ui (SetIsSearching True), Ui (SetShowResults True)];
             attendees = research_targets enhanced selectedDetails;
             tr1 = tr0 @ [Ui (SetLoadingState (Some
                      \<lparr>stage = Searching, person = Some (name (attendees ! 0)),
                       progress = 0, total = length attendees\<rparr>))];
             (rs, tr2) = search_loop net attendees 0 [] tr1;
             tr3 = tr2 @ [Ui (SetLoadingState (Some
                      \<lparr>stage = Searching,
                       person = Some (name (attendees ! (length attendees - 1))),
                       progress = length attendees, total = length attendees\<rparr>)),
                    Sleep 500,
                    Ui (SetSearchResults rs),
                    Ui (SetLoadingState (Some
                      \<lparr>stage = Summarizing, person = Some (name (rs ! 0)),
                       progress = 0, total = length rs\<rparr>))];
             (summariesResults, tr4) = summary_loop net rs 0 [] tr3;
             tr5 = tr4 @ [Ui (SetLoadingState (Some
                      \<lparr>stage = Summarizing, person = Some (name (rs ! (length rs - 1))),
                       progress = length rs, total = length rs\<rparr>)),
                    Sleep 500,
                    Ui (SetSummaries summariesResults)]
         in \<lparr>run_results = rs, run_summaries = summariesResults,
              run_trace = tr5 @ [Sleep 500, Ui (SetIsSearching False), Ui (SetLoadingState None)]\<rparr>))"

text \<open>
  The events of one iteration of each loop, the part of a trace that takes time or
  touches the network (everything but the state setters), and what it means for a
  reply to come from this repository's routes: an ok JSON body is one that the route's
  handler answers for the request that was sent.
\<close>

declare search_loop.simps [simp del] summary_loop.simps [simp del]

definition search_block :: "research_target list \<Rightarrow> nat \<Rightarrow> trace" where
  "search_block attendees i =
     [Ui (SetLoadingState (Some \<lparr>stage = Searching, person = Some (name (attendees ! i)),
                                progress = i, total = length attendees\<rparr>)),
      Sleep 100,
      Issued (SearchRequest (name (attendees ! i))),
      Settled (SearchRequest (name (attendees ! i)))]"

definition summary_block :: "ExaPersonInfo list \<Rightarrow> nat \<Rightarrow> trace" where
  "summary_block rs i =
     [Ui (SetLoadingState (Some \<lparr>stage = Summarizing, person = Some (name (rs ! i)),
                                progress = i, total = length rs\<rparr>)),
      Sleep 100,
      Issued (SummaryRequest (rs ! i)),
      Settled (SummaryRequest (rs ! i))]"

definition schedule :: "trace \<Rightarrow> trace" where
  "schedule tr = filter (\<lambda>e. case e of Ui u \<Rightarrow> False | _ \<Rightarrow> True) tr"

definition from_search_route :: "jsstring \<Rightarrow> ExaPersonInfo fetched \<Rightarrow> bool" where
  "from_search_route nm r \<longleftrightarrow>
     (\<forall>resp d. r = Resolved resp \<and> ok resp \<and> body_json resp = Inr d \<longrightarrow>
        (\<exists>apiKey (pnet :: (exa_call, unit ExaApiResponse) network) (ptr :: (exa_call, unit) event list) tr'.
           exa_POST (Inr nm) apiKey pnet ptr = (\<lparr>nr_body = Json_ok d, nr_status = status resp\<rparr>, tr')))"

definition from_summary_route :: "ExaPersonInfo \<Rightarrow> PersonSummary fetched \<Rightarrow> bool" where
  "from_summary_route p r \<longleftrightarrow>
     (\<forall>resp d. r = Resolved resp \<and> ok resp \<and> body_json resp = Inr d \<longrightarrow>
        (\<exists>apiKey onet (otr :: (openai_call, unit) event list) tr'.
           summary_POST (Inr p) apiKey onet otr = (\<lparr>nr_body = Json_ok d, nr_status = status resp\<rparr>, tr')))"

section \<open>components/ExaResults.tsx: the progress bar\<close>

text \<open>
  The effect on \<open>loadingState\<close>.  The width is a JavaScript number; it is modelled
  by an exact rational.  \<open>total\<close> is never 0 in a run, so no \<open>NaN\<close> arises.
\<close>

definition progress_effect :: "LoadingState option \<Rightarrow> rat \<Rightarrow> rat" where
  "progress_effect loadingState prev =
     (case loadingState of
        Some l \<Rightarrow>
          (let targetWidth = (of_nat (progress l) / of_nat (total l)) * 100
           in if targetWidth > prev then targetWidth else prev)
      | None \<Rightarrow> 0)"

text \<open>The states given to \<open>setLoadingState\<close> in a trace, and the widths they lead to.\<close>

definition loading_updates :: "trace \<Rightarrow> LoadingState option list" where
  "loading_updates tr =
     concat (map (\<lambda>e. case e of Ui (SetLoadingState l) \<Rightarrow> [l] | _ \<Rightarrow> []) tr)"

fun widths :: "rat \<Rightarrow> LoadingState option list \<Rightarrow> rat list" where
  "widths prev [] = []"
| "widths prev (l # ls) = progress_effect l prev # widths (progress_effect l prev) ls"

text \<open>
  The loading states a run over \<open>attendees\<close> with search results \<open>rs\<close> sets,
  in order, before it clears the state.
\<close>

definition run_states :: "research_target list \<Rightarrow> ExaPersonInfo list \<Rightarrow> LoadingState list" where
  "run_states attendees rs =
     \<lparr>stage = Searching, person = Some (name (attendees ! 0)), progress = 0,
      total = length attendees\<rparr> #
     map (\<lambda>i. \<lparr>stage = Searching, person = Some (name (attendees ! i)), progress = i,
                total = length attendees\<rparr>) [0..<length attendees] @
     [\<lparr>stage = Searching, person = Some (name (attendees ! (length attendees - 1))),
       progress = length attendees, total = length attendees\<rparr>,
      \<lparr>stage = Summarizing, person = Some (name (rs ! 0)), progress = 0, total = length rs\<rparr>] @
     map (\<lambda>i. \<lparr>stage = Summarizing, person = Some (name (rs ! i)), progress = i,
                total = length rs\<rparr>) [0..<length rs] @
     [\<lparr>stage = Summarizing, person = Some (name (rs ! (length rs - 1))),
       progress = length rs, total = length rs\<rparr>]"

section \<open>unnamed/part_000: CalendarGrid\<close>





























section \<open>Sample inputs\<close>

definition ann :: Attendee where
  "ann = \<lparr>email = str ''ann@x.org'', displayName = Some (str ''Ann''), responseStatus = None,
           organizer = None, optional = None\<rparr>"

definition bob :: Attendee where
  "bob = \<lparr>email = str ''bob@x.org'', displayName = None, responseStatus = None,
           organizer = None, optional = None\<rparr>"

definition two_selected :: "(jsstring, selected_detail) jsmap" where
  "two_selected =
     [(str ''e1-ann@x.org'', \<lparr>eventId = str ''e1'', attendee = ann\<rparr>),
      (str ''e1-bob@x.org'', \<lparr>eventId = str ''e1'', attendee = bob\<rparr>)]"

definition both_selected :: selection_state where
  "both_selected =
     \<lparr>selectedAttendees = {str ''e1-ann@x.org'', str ''e1-bob@x.org''},
      selectedAttendeesDetails = two_selected, enhancedAttendees = Map.empty\<rparr>"

definition offline :: client_net where
  "offline = \<lparr>search_net = (\<lambda>t q. Rejected NonError), summary_net = (\<lambda>t q. Rejected NonError)\<rparr>"

definition online :: client_net where
  "online =
     \<lparr>search_net = (\<lambda>t nm. Resolved
          \<lparr>status = 200, statusText = str ''OK'', body_text = Inl NonError,
           body_json = Inr \<lparr>name = nm, error = None, searchResults = []\<rparr>,
           body_error = Inl NonError\<rparr>),
      summary_net = (\<lambda>t p. Resolved
          \<lparr>status = 200, statusText = str ''OK'', body_text = Inl NonError,
           body_json = Inr \<lparr>name = name p, error = None, summary = str ''Brief'',
                            sources = Some (map (\<lambda>result. \<lparr>title = title result, url = url result\<rparr>)
                                              (searchResults p))\<rparr>,
           body_error = Inl NonError\<rparr>)\<rparr>"

definition brief :: PersonSummary where
  "brief = \<lparr>name = str ''Al'', error = None, summary = str ''Hi [Source 1]'',
             sources = Some [\<lparr>title = str ''T'', url = str ''u''\<rparr>]\<rparr>"

definition dollar_result :: ExaSearchResult where
  "dollar_result =
     \<lparr>title = str ''Earn $$ now'', url = str ''https://x.org/a'', publishedDate = None,
      author = None, result_summary = [], result_text = str ''t''\<rparr>"



section \<open>Properties\<close>

lemma map_keys_map_set: "map_keys (map_set k v m) = insert k (map_keys m)"
  by (force simp: map_set_def map_keys_def split: if_splits)

lemma map_keys_map_delete: "map_keys (map_delete k m) = map_keys m - {k}"
  by (force simp: map_delete_def map_keys_def)

lemma map_keys_append: "map_keys (m @ m') = map_keys m \<union> map_keys m'"
  by (auto simp: map_keys_def)

lemma map_keys_single: "map_keys [(k, v)] = {k}"
  by (simp add: map_keys_def)

lemma distinct_map_set: "distinct (map fst m) \<Longrightarrow> distinct (map fst (map_set k v m))"
proof -
  have same: "map (fst \<circ> (\<lambda>(k', v'). if k' = k then (k', v) else (k', v'))) m = map fst m"
    by (induction m) auto
  assume "distinct (map fst m)"
  then show ?thesis
    by (auto simp: map_set_def map_keys_def same)
qed

lemma distinct_map_delete: "distinct (map fst m) \<Longrightarrow> distinct (map fst (map_delete k m))"
  by (induction m) (auto simp: map_delete_def)

lemma map_delete_absent: "k \<notin> map_keys m \<Longrightarrow> map_delete k m = m"
  by (induction m) (auto simp: map_delete_def map_keys_def)

lemma in_sync_handleAttendeeSelect:
  "in_sync snap \<Longrightarrow> in_sync (handleAttendeeSelect eid a fetched snap cur)"
  by (auto simp: in_sync_def handleAttendeeSelect_def Let_def map_keys_map_set
      map_keys_map_delete distinct_map_set distinct_map_delete)

lemma in_sync_initial: "in_sync initial_selection"
  by (simp add: in_sync_def initial_selection_def map_keys_def)

lemma in_sync_clearAll: "in_sync (clearAll s)"
  by (simp add: in_sync_def clearAll_def map_keys_def)

lemma in_sync_apply_action:
  assumes "hist \<noteq> []" "\<forall>r \<in> set hist. in_sync r"
  shows "apply_action hist act \<noteq> [] \<and> (\<forall>r \<in> set (apply_action hist act). in_sync r)"
proof (cases act)
  case (Select i eid a fetched)
  have "min i (length hist - 1) < length hist"
    using assms(1) by (cases hist) auto
  then have "in_sync (hist ! (min i (length hist - 1)))"
    using assms(2) by (meson nth_mem)
  then show ?thesis
    using assms(2) by (simp add: Select in_sync_handleAttendeeSelect)
next
  case ClearAll
  then show ?thesis
    using assms(2) by (simp add: in_sync_clearAll)
qed

lemma in_sync_foldl:
  "hist \<noteq> [] \<Longrightarrow> \<forall>r \<in> set hist. in_sync r \<Longrightarrow>
   foldl apply_action hist acts \<noteq> [] \<and> (\<forall>r \<in> set (foldl apply_action hist acts). in_sync r)"
proof (induction acts arbitrary: hist)
  case Nil
  then show ?case by simp
next
  case (Cons act acts)
  from in_sync_apply_action [OF Cons.prems, of act] Cons.IH [of "apply_action hist act"]
  show ?case by simp
qed

subsection \<open>C10: attendee selection\<close>

text \<open>
  C10.  \<open>handleAttendeeSelect\<close> keeps the Set and the Map synchronised
  and toggles the key \<open>eventId-email\<close> of the state its render shows.  In every state
  the component reaches from the initial one by selection calls (each made from any
  earlier render) and ``Clear All'', the key set of \<open>selectedAttendees\<close> equals the
  key set of \<open>selectedAttendeesDetails\<close>.  A call made from a render showing a
  synchronised state \<open>s\<close> writes a synchronised state: the key is removed from both
  structures when \<open>s\<close> has it and added to both when it has not.  A second call with
  the same event id and attendee made from the render that follows the first gives back
  the Set and the key set of the Map of \<open>s\<close>; the Map itself is that of \<open>s\<close> when the
  key was absent, and when it was present its entry has become the last one, holding
  \<open>{eventId, attendee}\<close>.  A second call made from the same render as the first writes
  the same Set and Map as the first: the two calls toggle once.  The other keys and
  entries are left as they are, and a new entry comes last.
\<close>

theorem handleAttendeeSelect_sync_toggle:
  assumes sync: "in_sync s"
  shows "(\<forall>r \<in> set (foldl apply_action [initial_selection] acts). in_sync r) \<and>
    attendeeKey eid a = eid @ str ''-'' @ email a \<and>
    (let k = attendeeKey eid a;
         s1 = handleAttendeeSelect eid a f1 s cur;
         s2 = handleAttendeeSelect eid a f2 s1 s1;
         t2 = handleAttendeeSelect eid a f2 s s1
     in selectedAttendees s1 = map_keys (selectedAttendeesDetails s1) \<and>
        in_sync s1 \<and>
        (if k \<in> selectedAttendees s
         then k \<notin> selectedAttendees s1 \<and> k \<notin> map_keys (selectedAttendeesDetails s1) \<and>
              selectedAttendeesDetails s2 =
                map_delete k (selectedAttendeesDetails s) @ [(k, \<lparr>eventId = eid, attendee = a\<rparr>)]
         else k \<in> selectedAttendees s1 \<and> k \<in> map_keys (selectedAttendeesDetails s1) \<and>
              selectedAttendeesDetails s2 = selectedAttendeesDetails s) \<and>
        selectedAttendees s2 = selectedAttendees s \<and>
        map_keys (selectedAttendeesDetails s2) = map_keys (selectedAttendeesDetails s) \<and>
        selectedAttendees t2 = selectedAttendees s1 \<and>
        selectedAttendeesDetails t2 = selectedAttendeesDetails s1 \<and>
        selectedAttendees s1 =
          (if k \<in> selectedAttendees s then selectedAttendees s - {k}
           else insert k (selectedAttendees s)) \<and>
        selectedAttendeesDetails s1 =
          (if k \<in> selectedAttendees s then map_delete k (selectedAttendeesDetails s)
           else selectedAttendeesDetails s @ [(k, \<lparr>eventId = eid, attendee = a\<rparr>)]))"
proof -
  let ?k = "attendeeKey eid a"
  let ?m = "selectedAttendeesDetails s"
  have reach: "\<forall>r \<in> set (foldl apply_action [initial_selection] acts). in_sync r"
    using in_sync_foldl [of "[initial_selection]" acts] in_sync_initial by simp
  have keys: "selectedAttendees s = map_keys ?m"
    using sync by (simp add: in_sync_def)
  have s1: "in_sync (handleAttendeeSelect eid a f1 s cur)"
    by (rule in_sync_handleAttendeeSelect [OF sync])
  have once: "selectedAttendees (handleAttendeeSelect eid a f2 s (handleAttendeeSelect eid a f1 s cur)) =
      selectedAttendees (handleAttendeeSelect eid a f1 s cur) \<and>
    selectedAttendeesDetails (handleAttendeeSelect eid a f2 s (handleAttendeeSelect eid a f1 s cur)) =
      selectedAttendeesDetails (handleAttendeeSelect eid a f1 s cur)"
    by (simp add: handleAttendeeSelect_def Let_def)
  have exact: "selectedAttendees (handleAttendeeSelect eid a f1 s cur) =
          (if ?k \<in> selectedAttendees s then selectedAttendees s - {?k}
           else insert ?k (selectedAttendees s)) \<and>
        selectedAttendeesDetails (handleAttendeeSelect eid a f1 s cur) =
          (if ?k \<in> selectedAttendees s then map_delete ?k ?m
           else ?m @ [(?k, \<lparr>eventId = eid, attendee = a\<rparr>)])"
    using keys by (simp add: handleAttendeeSelect_def Let_def map_set_def)
  show ?thesis
  proof (cases "?k \<in> selectedAttendees s")
    case True
    have gone: "?k \<notin> map_keys (map_delete ?k ?m)"
      by (simp add: map_keys_map_delete)
    have again: "map_set ?k v (map_delete ?k ?m) = map_delete ?k ?m @ [(?k, v)]" for v
      using gone by (simp add: map_set_def)
    have same_keys: "map_keys (map_delete ?k ?m @ [(?k, v)]) = map_keys ?m" for v
      using True keys
      by (auto simp: map_keys_append map_keys_single map_keys_map_delete)
    have rest: "(let k = attendeeKey eid a;
         s1 = handleAttendeeSelect eid a f1 s cur;
         s2 = handleAttendeeSelect eid a f2 s1 s1
     in selectedAttendees s1 = map_keys (selectedAttendeesDetails s1) \<and>
        k \<notin> selectedAttendees s1 \<and> k \<notin> map_keys (selectedAttendeesDetails s1) \<and>
        selectedAttendeesDetails s2 =
          map_delete k (selectedAttendeesDetails s) @ [(k, \<lparr>eventId = eid, attendee = a\<rparr>)] \<and>
        selectedAttendees s2 = selectedAttendees s \<and>
        map_keys (selectedAttendeesDetails s2) = map_keys (selectedAttendeesDetails s))"
      using True gone keys again same_keys
      by (simp add: handleAttendeeSelect_def Let_def map_keys_map_delete insert_absorb)
    have key: "attendeeKey eid a = eid @ str ''-'' @ email a"
      by (simp add: attendeeKey_def)
    from True reach s1 once rest exact show ?thesis
      unfolding Let_def by (intro conjI) (simp_all add: key [symmetric] same_keys)
  next
    case False
    then have absent: "?k \<notin> map_keys ?m"
      using keys by simp
    have undo: "map_delete ?k (map_set ?k v ?m) = ?m" for v
      using absent by (simp add: map_set_def map_delete_def map_delete_absent [unfolded map_delete_def])
    have rest: "(let k = attendeeKey eid a;
         s1 = handleAttendeeSelect eid a f1 s cur;
         s2 = handleAttendeeSelect eid a f2 s1 s1
     in selectedAttendees s1 = map_keys (selectedAttendeesDetails s1) \<and>
        k \<in> selectedAttendees s1 \<and> k \<in> map_keys (selectedAttendeesDetails s1) \<and>
        selectedAttendeesDetails s2 = selectedAttendeesDetails s \<and>
        selectedAttendees s2 = selectedAttendees s \<and>
        map_keys (selectedAttendeesDetails s2) = map_keys (selectedAttendeesDetails s))"
      using False absent keys undo
      by (auto simp: handleAttendeeSelect_def Let_def map_keys_map_set)
    have key: "attendeeKey eid a = eid @ str ''-'' @ email a"
      by (simp add: attendeeKey_def)
    from False reach s1 once rest exact show ?thesis
      unfolding Let_def by (intro conjI) (simp_all add: key [symmetric])
  qed
qed

lemma sample_keys:
  "attendeeKey (str ''e1'') ann = str ''e1-ann@x.org''"
  "attendeeKey (str ''e1'') bob = str ''e1-bob@x.org''"
  "str ''e1-ann@x.org'' \<noteq> str ''e1-bob@x.org''"
  by (simp_all add: attendeeKey_def ann_def bob_def str_def cu_def)

lemma both_selected_sync: "in_sync both_selected"
  by (simp add: in_sync_def both_selected_def two_selected_def map_keys_def sample_keys)

theorem handleAttendeeSelect_sync_toggle_witness:
  "in_sync both_selected \<and>
   selectedAttendees (handleAttendeeSelect (str ''e1'') ann None both_selected both_selected) =
     {str ''e1-bob@x.org''} \<and>
   selectedAttendeesDetails
     (handleAttendeeSelect (str ''e1'') ann None
        (handleAttendeeSelect (str ''e1'') ann None both_selected both_selected)
        (handleAttendeeSelect (str ''e1'') ann None both_selected both_selected)) =
     [(str ''e1-bob@x.org'', \<lparr>eventId = str ''e1'', attendee = bob\<rparr>),
      (str ''e1-ann@x.org'', \<lparr>eventId = str ''e1'', attendee = ann\<rparr>)]"
proof -
  let ?s1 = "handleAttendeeSelect (str ''e1'') ann None both_selected both_selected"
  note t = handleAttendeeSelect_sync_toggle [OF both_selected_sync, where acts = "[]"
      and eid = "str ''e1''" and a = ann and ?f1.0 = None and cur = both_selected and ?f2.0 = None]
  have k: "attendeeKey (str ''e1'') ann \<in> selectedAttendees both_selected"
    by (simp add: sample_keys both_selected_def)
  have m: "map_delete (attendeeKey (str ''e1'') ann) (selectedAttendeesDetails both_selected) =
      [(str ''e1-bob@x.org'', \<lparr>eventId = str ''e1'', attendee = bob\<rparr>)]"
    using sample_keys(3)
    by (simp add: both_selected_def two_selected_def map_delete_def sample_keys(1,2) neq_commute)
  from t have "selectedAttendees ?s1 = map_keys (selectedAttendeesDetails ?s1)"
    unfolding Let_def by (elim conjE)
  moreover from t k have "selectedAttendeesDetails (handleAttendeeSelect (str ''e1'') ann None ?s1 ?s1) =
      map_delete (attendeeKey (str ''e1'') ann) (selectedAttendeesDetails both_selected) @
        [(attendeeKey (str ''e1'') ann, \<lparr>eventId = str ''e1'', attendee = ann\<rparr>)]"
    unfolding Let_def by (elim conjE) simp
  moreover have "map_keys (selectedAttendeesDetails ?s1) = {str ''e1-bob@x.org''}"
    using m k by (simp add: handleAttendeeSelect_def Let_def map_keys_def)
  ultimately show ?thesis
    using both_selected_sync by (simp add: m [unfolded sample_keys(1)] sample_keys(1))
qed

text \<open>
  Two calls do not always restore the original selection state.  Toggling a selected attendee off and on
  again, with a render in between, leaves the Map in another order: bob, ann instead of
  ann, bob, which is the order \<open>handleContinue\<close> researches them in.  And two calls
  made from one render (a click on the checkbox of \<open>EventCard\<close> runs both its
  \<open>onChange\<close> and the row's \<open>onClick\<close>) both start from that render's Set and
  Map, so after them the attendee is selected and the original state is not restored.
\<close>

theorem handleAttendeeSelect_restore_counterexample:
  "selectedAttendeesDetails
     (handleAttendeeSelect (str ''e1'') ann None
        (handleAttendeeSelect (str ''e1'') ann None both_selected both_selected)
        (handleAttendeeSelect (str ''e1'') ann None both_selected both_selected))
     \<noteq> selectedAttendeesDetails both_selected \<and>
   selectedAttendees
     (handleAttendeeSelect (str ''e1'') ann None initial_selection
        (handleAttendeeSelect (str ''e1'') ann None initial_selection initial_selection))
     \<noteq> selectedAttendees initial_selection"
  by (simp add: handleAttendeeSelect_def Let_def sample_keys both_selected_def two_selected_def
      initial_selection_def map_delete_def map_set_def map_keys_def)

subsection \<open>C6: the search route is a projection of the provider's reply\<close>

text \<open>
  C6.  For a request carrying the name \<open>nm\<close>, with the API key configured and the
  provider answering the route's request \<open>c\<close> with an ok status and a JSON body
  \<open>data\<close>: the route issues exactly the request \<open>c\<close>, whose query is
  \<open>nm\<close> followed by `` professional background experience career'', with
  \<open>numResults\<close> 5 and type \<open>keyword\<close>; it answers \<open>{ name, searchResults }\<close> with
  status 200, where \<open>name\<close> is \<open>nm\<close> and \<open>searchResults\<close> has the length and
  order of the provider's \<open>results\<close>, each element carrying exactly the provider's
  title, url, publishedDate, author, summary and text.
\<close>

theorem exa_POST_projection:
  assumes key: "apiKey = Some k" "k \<noteq> []"
    and c: "c = \<lparr>call_url = str ''https://api.exa.ai/search'', x_api_key = k,
                  call_body = \<lparr>query = nm @ str '' professional background experience career'',
                               numResults = 5, search_type = str ''keyword'',
                               contents_text = True,
                               contents_summary_query =
                                 str ''Summarize this person's professional background and experience''\<rparr>\<rparr>"
    and reply: "net (length tr) c = Resolved resp" "ok resp" "body_json resp = Inr data"
  shows "\<exists>found.
           exa_POST (Inr nm) apiKey net tr =
             (\<lparr>nr_body = Json_ok \<lparr>name = nm, error = None, searchResults = found\<rparr>,
               nr_status = 200\<rparr>,
              tr @ [Issued c, Settled c]) \<and>
           length found = length (results data) \<and>
           (\<forall>i < length (results data).
              title (found ! i) = title (results data ! i) \<and>
              url (found ! i) = url (results data ! i) \<and>
              publishedDate (found ! i) = publishedDate (results data ! i) \<and>
              author (found ! i) = author (results data ! i) \<and>
              result_summary (found ! i) = result_summary (results data ! i) \<and>
              result_text (found ! i) = result_text (results data ! i))"
  using key reply unfolding c
  by (simp add: exa_POST_def fetch_def Let_def)

theorem exa_POST_projection_witness:
  "exa_POST (Inr (str ''Ada Lovelace'')) (Some (str ''secret''))
     (\<lambda>t q. Resolved
        \<lparr>status = 200, statusText = str ''OK'', body_text = Inl NonError,
         body_json = Inr \<lparr>results =
           [\<lparr>title = str ''Ada'', url = str ''https://a.example'', publishedDate = None,
             author = Some (str ''B''), result_summary = str ''s'', result_text = str ''t''\<rparr>]\<rparr>,
         body_error = Inl NonError\<rparr>)
     ([] :: (exa_call, unit) event list)
   = (\<lparr>nr_body = Json_ok
         \<lparr>name = str ''Ada Lovelace'', error = None,
          searchResults =
            [\<lparr>title = str ''Ada'', url = str ''https://a.example'', publishedDate = None,
              author = Some (str ''B''), result_summary = str ''s'',
              result_text = str ''t''\<rparr>]\<rparr>,
        nr_status = 200\<rparr>,
      [Issued \<lparr>call_url = str ''https://api.exa.ai/search'', x_api_key = str ''secret'',
          call_body = \<lparr>query = str ''Ada Lovelace'' @ str '' professional background experience career'',
                       numResults = 5, search_type = str ''keyword'', contents_text = True,
                       contents_summary_query =
                         str ''Summarize this person's professional background and experience''\<rparr>\<rparr>,
       Settled \<lparr>call_url = str ''https://api.exa.ai/search'', x_api_key = str ''secret'',
          call_body = \<lparr>query = str ''Ada Lovelace'' @ str '' professional background experience career'',
                       numResults = 5, search_type = str ''keyword'', contents_text = True,
                       contents_summary_query =
                         str ''Summarize this person's professional background and experience''\<rparr>\<rparr>])"
proof -
  have k: "str ''secret'' \<noteq> []"
    by (simp add: str_def)
  have okr: "ok \<lparr>status = 200, statusText = str ''OK'', body_text = Inl NonError,
         body_json = Inr \<lparr>results =
           [\<lparr>title = str ''Ada'', url = str ''https://a.example'', publishedDate = None,
             author = Some (str ''B''), result_summary = str ''s'', result_text = str ''t''\<rparr>]\<rparr>,
         body_error = Inl NonError\<rparr>"
    by (simp add: ok_def)
  from exa_POST_projection [OF refl k refl refl okr, where tr = "[]" and nm = "str ''Ada Lovelace''"]
  show ?thesis
    by (simp add: exa_POST_def fetch_def Let_def ok_def k)
qed

subsection \<open>C8: failures are reported as values\<close>












subsection \<open>C4: no call is retried\<close>

lemma issued_append: "issued (tr @ tr') = issued tr @ issued tr'"
  by (simp add: issued_def)

lemma issued_fetch: "issued (snd (fetch net kind q tr)) = issued tr @ [kind q]"
  by (simp add: fetch_def issued_def)

text \<open>
  C4.  Whatever the network answers, one invocation of \<open>searchPerson\<close> issues exactly
  one request (to the local search route, for the given name), one invocation of
  \<open>generatePersonSummary\<close> issues exactly one request (to the summary route), and one
  invocation of the search route handler issues at most one request, to
  \<open>https://api.exa.ai/search\<close>: none when the body is unreadable or the key is missing.
  A failure comes back as a value and nothing is sent again.
\<close>

theorem no_retry:
  "issued (snd (searchPerson snet nm tr)) = issued tr @ [SearchRequest nm] \<and>
   issued (snd (generatePersonSummary gnet personInfo tr)) = issued tr @ [SummaryRequest personInfo] \<and>
   (issued (snd (exa_POST req apiKey pnet ptr)) = issued ptr \<or>
    (\<exists>c. issued (snd (exa_POST req apiKey pnet ptr)) = issued ptr @ [c] \<and>
          call_url c = str ''https://api.exa.ai/search'')) \<and>
   length (issued (snd (exa_POST req apiKey pnet ptr))) \<le> length (issued ptr) + 1"
proof -
  have a: "issued (snd (searchPerson snet nm tr)) = issued tr @ [SearchRequest nm]"
    by (simp add: searchPerson_def fetch_def issued_def)
  have b: "issued (snd (generatePersonSummary gnet personInfo tr)) =
      issued tr @ [SummaryRequest personInfo]"
    by (simp add: generatePersonSummary_def fetch_def issued_def)
  have c: "issued (snd (exa_POST req apiKey pnet ptr)) = issued ptr \<or>
    (\<exists>c. issued (snd (exa_POST req apiKey pnet ptr)) = issued ptr @ [c] \<and>
          call_url c = str ''https://api.exa.ai/search'')"
    by (auto simp: exa_POST_def fetch_def issued_def Let_def
        split: sum.splits option.splits fetched.splits)
  then have d: "length (issued (snd (exa_POST req apiKey pnet ptr))) \<le> length (issued ptr) + 1"
    by auto
  from a b c d show ?thesis by blast
qed

theorem no_retry_witness:
  "issued (snd (searchPerson (\<lambda>t q. Rejected NonError) (str ''Ada'')
      ([] :: (client_request, unit) event list))) = [SearchRequest (str ''Ada'')] \<and>
   issued (snd (exa_POST (Inr (str ''Ada'')) None (\<lambda>t q. Rejected NonError)
      ([] :: (exa_call, unit) event list))) = []"
  using no_retry [of "\<lambda>t q. Rejected NonError" "str ''Ada''" "[] :: (client_request, unit) event list"
      "\<lambda>t q. Rejected NonError" "\<lparr>name = [], error = None, searchResults = []\<rparr>"
      "Inr (str ''Ada'')" None "\<lambda>t q. Rejected NonError" "[] :: (exa_call, unit) event list"]
  by (simp add: issued_def exa_POST_def)

subsection \<open>The research pipeline\<close>

lemma search_loop_step:
  "i < length attendees \<Longrightarrow>
   search_loop net attendees i rs tr =
     search_loop net attendees (Suc i)
       (rs @ [searchPerson_result (name (attendees ! i))
                (search_net net (length tr + 2) (name (attendees ! i)))])
       (tr @ search_block attendees i)"
  by (subst search_loop.simps) (simp add: searchPerson_def fetch_def search_block_def Let_def)

lemma search_loop_done:
  "\<not> i < length attendees \<Longrightarrow> search_loop net attendees i rs tr = (rs, tr)"
  by (subst search_loop.simps) simp

lemma search_loop_trace:
  "snd (search_loop net attendees i rs tr) =
     tr @ concat (map (search_block attendees) [i..<length attendees])"
proof (induction "length attendees - i" arbitrary: i rs tr)
  case 0
  then show ?case by (simp add: search_loop_done)
next
  case (Suc k)
  then have lt: "i < length attendees" and k: "k = length attendees - Suc i"
    by auto
  show ?case
    by (simp only: search_loop_step [OF lt] Suc.hyps(1) [OF k])
      (simp add: upt_conv_Cons [OF lt])
qed

lemma search_loop_length:
  "length (fst (search_loop net attendees i rs tr)) = length rs + (length attendees - i)"
proof (induction "length attendees - i" arbitrary: i rs tr)
  case 0
  then show ?case by (simp add: search_loop_done)
next
  case (Suc k)
  then have lt: "i < length attendees" and k: "k = length attendees - Suc i"
    by auto
  show ?case
    using lt by (simp only: search_loop_step [OF lt] Suc.hyps(1) [OF k]) simp
qed

lemma exa_POST_ok_name:
  "exa_POST (Inr nm) apiKey pnet ptr = (\<lparr>nr_body = Json_ok d, nr_status = st\<rparr>, tr') \<Longrightarrow> name d = nm"
  by (auto simp: exa_POST_def fetch_def Let_def api_key_missing_def exa_request_failed_def
      split: option.splits if_splits fetched.splits sum.splits)

lemma summary_POST_ok_name:
  "summary_POST (Inr p) apiKey onet otr = (\<lparr>nr_body = Json_ok d, nr_status = st\<rparr>, tr') \<Longrightarrow>
   name d = name p"
  by (auto simp: summary_POST_def fetch_def Let_def summary_failed_def
      split: option.splits if_splits fetched.splits sum.splits list.splits)

lemma searchPerson_result_name:
  "from_search_route nm r \<Longrightarrow> name (searchPerson_result nm r) = nm"
  by (cases r)
    (auto simp: searchPerson_result_def searchPerson_try_def from_search_route_def Let_def
      split: sum.splits dest: exa_POST_ok_name)

lemma generatePersonSummary_result_name:
  "from_summary_route p r \<Longrightarrow> name (generatePersonSummary_result p r) = name p"
  by (cases r)
    (auto simp: generatePersonSummary_result_def generatePersonSummary_try_def
      from_summary_route_def Let_def split: sum.splits dest: summary_POST_ok_name)

lemma search_loop_names:
  assumes "\<forall>t nm. from_search_route nm (search_net net t nm)"
  shows "map name (fst (search_loop net attendees i rs tr)) =
     map name rs @ map name (drop i attendees)"
proof (induction "length attendees - i" arbitrary: i rs tr)
  case 0
  then show ?case by (simp add: search_loop_done)
next
  case (Suc k)
  then have lt: "i < length attendees" and k: "k = length attendees - Suc i"
    by auto
  have d: "drop i attendees = attendees ! i # drop (Suc i) attendees"
    using lt by (simp add: Cons_nth_drop_Suc)
  show ?case
    by (simp only: search_loop_step [OF lt] Suc.hyps(1) [OF k] d)
      (simp add: searchPerson_result_name assms)
qed

lemma summary_loop_step:
  "i < length rs \<Longrightarrow>
   summary_loop net rs i acc tr =
     summary_loop net rs (Suc i)
       (acc @ [generatePersonSummary_result (rs ! i) (summary_net net (length tr + 2) (rs ! i))])
       (tr @ summary_block rs i)"
  by (subst summary_loop.simps)
    (simp add: generatePersonSummary_def fetch_def summary_block_def Let_def)

lemma summary_loop_done:
  "\<not> i < length rs \<Longrightarrow> summary_loop net rs i acc tr = (acc, tr)"
  by (subst summary_loop.simps) simp

lemma summary_loop_trace:
  "snd (summary_loop net rs i acc tr) = tr @ concat (map (summary_block rs) [i..<length rs])"
proof (induction "length rs - i" arbitrary: i acc tr)
  case 0
  then show ?case by (simp add: summary_loop_done)
next
  case (Suc k)
  then have lt: "i < length rs" and k: "k = length rs - Suc i"
    by auto
  show ?case
    by (simp only: summary_loop_step [OF lt] Suc.hyps(1) [OF k])
      (simp add: upt_conv_Cons [OF lt])
qed

lemma summary_loop_names:
  assumes "\<forall>t p. from_summary_route p (summary_net net t p)"
  shows "map name (fst (summary_loop net rs i acc tr)) = map name acc @ map name (drop i rs)"
proof (induction "length rs - i" arbitrary: i acc tr)
  case 0
  then show ?case by (simp add: summary_loop_done)
next
  case (Suc k)
  then have lt: "i < length rs" and k: "k = length rs - Suc i"
    by auto
  have d: "drop i rs = rs ! i # drop (Suc i) rs"
    using lt by (simp add: Cons_nth_drop_Suc)
  show ?case
    by (simp only: summary_loop_step [OF lt] Suc.hyps(1) [OF k] d)
      (simp add: generatePersonSummary_result_name assms)
qed

lemma summary_loop_length:
  "length (fst (summary_loop net rs i acc tr)) = length acc + (length rs - i)"
proof (induction "length rs - i" arbitrary: i acc tr)
  case 0
  then show ?case by (simp add: summary_loop_done)
next
  case (Suc k)
  then have lt: "i < length rs" and k: "k = length rs - Suc i"
    by auto
  show ?case
    using lt by (simp only: summary_loop_step [OF lt] Suc.hyps(1) [OF k]) simp
qed

lemma handleContinue_results:
  "run_results (handleContinue net enhanced sel) =
     fst (search_loop net (research_targets enhanced sel) 0 []
        [Ui (SetIsSearching True), Ui (SetShowResults True),
         Ui (SetLoadingState (Some
            \<lparr>stage = Searching, person = Some (name (research_targets enhanced sel ! 0)),
             progress = 0, total = length (research_targets enhanced sel)\<rparr>))])"
  if "sel \<noteq> []"
  using that by (simp add: handleContinue_def Let_def split: prod.splits)

lemma handleContinue_trace:
  fixes net enhanced sel
  assumes "sel \<noteq> []"
  defines "attendees \<equiv> research_targets enhanced sel"
  defines "r \<equiv> handleContinue net enhanced sel"
  shows "run_trace r =
     [Ui (SetIsSearching True), Ui (SetShowResults True),
      Ui (SetLoadingState (Some \<lparr>stage = Searching, person = Some (name (attendees ! 0)),
                                  progress = 0, total = length attendees\<rparr>))] @
     concat (map (search_block attendees) [0..<length attendees]) @
     [Ui (SetLoadingState (Some \<lparr>stage = Searching,
                                  person = Some (name (attendees ! (length attendees - 1))),
                                  progress = length attendees, total = length attendees\<rparr>)),
      Sleep 500,
      Ui (SetSearchResults (run_results r)),
      Ui (SetLoadingState (Some \<lparr>stage = Summarizing, person = Some (name (run_results r ! 0)),
                                  progress = 0, total = length (run_results r)\<rparr>))] @
     concat (map (summary_block (run_results r)) [0..<length (run_results r)]) @
     [Ui (SetLoadingState (Some \<lparr>stage = Summarizing,
                                  person = Some (name (run_results r ! (length (run_results r) - 1))),
                                  progress = length (run_results r), total = length (run_results r)\<rparr>)),
      Sleep 500,
      Ui (SetSummaries (run_summaries r)),
      Sleep 500, Ui (SetIsSearching False), Ui (SetLoadingState None)]"
  using assms(1) unfolding r_def attendees_def
  by (simp add: handleContinue_def Let_def split_beta search_loop_trace summary_loop_trace)

lemma schedule_append: "schedule (a @ b) = schedule a @ schedule b"
  by (simp add: schedule_def)

lemma schedule_concat: "schedule (concat xs) = concat (map schedule xs)"
  by (induction xs) (simp_all add: schedule_append, simp add: schedule_def)

lemma map_index: "map (\<lambda>i. f (xs ! i)) [0..<length xs] = map f xs"
  by (rule nth_equalityI) auto

lemma schedule_search_blocks:
  "schedule (concat (map (search_block attendees) [0..<length attendees])) =
   concat (map (\<lambda>a. [Sleep 100, Issued (SearchRequest (name a)), Settled (SearchRequest (name a))])
     attendees)"
proof -
  have "map (schedule \<circ> search_block attendees) [0..<length attendees] =
      map (\<lambda>i. (\<lambda>a. [Sleep 100, Issued (SearchRequest (name a)), Settled (SearchRequest (name a))])
        (attendees ! i)) [0..<length attendees]"
    by (simp add: schedule_def search_block_def)
  also have "\<dots> = map (\<lambda>a. [Sleep 100, Issued (SearchRequest (name a)), Settled (SearchRequest (name a))])
      attendees"
    by (rule map_index)
  finally show ?thesis
    by (simp add: schedule_concat)
qed

lemma schedule_summary_blocks:
  "schedule (concat (map (summary_block rs) [0..<length rs])) =
   concat (map (\<lambda>p. [Sleep 100, Issued (SummaryRequest p), Settled (SummaryRequest p)]) rs)"
proof -
  have "map (schedule \<circ> summary_block rs) [0..<length rs] =
      map (\<lambda>i. (\<lambda>p. [Sleep 100, Issued (SummaryRequest p), Settled (SummaryRequest p)]) (rs ! i))
        [0..<length rs]"
    by (simp add: schedule_def summary_block_def)
  also have "\<dots> = map (\<lambda>p. [Sleep 100, Issued (SummaryRequest p), Settled (SummaryRequest p)]) rs"
    by (rule map_index)
  finally show ?thesis
    by (simp add: schedule_concat)
qed

lemma research_targets_length: "length (research_targets enhanced sel) = length sel"
  by (simp add: research_targets_def map_values_def)

lemma handleContinue_results_length:
  "length (run_results (handleContinue net enhanced sel)) = length sel"
  by (cases "sel = []")
    (simp_all add: handleContinue_def Let_def split_beta search_loop_length
      research_targets_length)

lemma handleContinue_summaries_length:
  "length (run_summaries (handleContinue net enhanced sel)) = length sel"
  by (cases "sel = []")
    (simp_all add: handleContinue_def Let_def split_beta search_loop_length
      summary_loop_length research_targets_length)

lemma search_block_length: "length (search_block attendees i) = 4"
  by (simp add: search_block_def)

lemma summary_block_length: "length (summary_block rs i) = 4"
  by (simp add: summary_block_def)

lemma search_loop_results:
  "fst (search_loop net attendees i rs tr) =
     rs @ map (\<lambda>j. searchPerson_result (name (attendees ! j))
                 (search_net net (length tr + 4 * (j - i) + 2) (name (attendees ! j))))
            [i..<length attendees]"
proof (induction "length attendees - i" arbitrary: i rs tr)
  case 0
  then show ?case by (simp add: search_loop_done)
next
  case (Suc k)
  then have lt: "i < length attendees" and k: "k = length attendees - Suc i"
    by auto
  have later: "map (\<lambda>j. searchPerson_result (name (attendees ! j))
                 (search_net net (length (tr @ search_block attendees i) + 4 * (j - Suc i) + 2)
                    (name (attendees ! j)))) [Suc i..<length attendees] =
      map (\<lambda>j. searchPerson_result (name (attendees ! j))
                 (search_net net (length tr + 4 * (j - i) + 2) (name (attendees ! j))))
        [Suc i..<length attendees]"
  proof (rule map_cong [OF refl])
    fix j assume "j \<in> set [Suc i..<length attendees]"
    then have "length (tr @ search_block attendees i) + 4 * (j - Suc i) + 2 =
        length tr + 4 * (j - i) + 2"
      by (auto simp: search_block_length)
    then show "searchPerson_result (name (attendees ! j))
                 (search_net net (length (tr @ search_block attendees i) + 4 * (j - Suc i) + 2)
                    (name (attendees ! j))) =
        searchPerson_result (name (attendees ! j))
                 (search_net net (length tr + 4 * (j - i) + 2) (name (attendees ! j)))"
      by (simp only:)
  qed
  show ?case
    by (simp only: search_loop_step [OF lt] Suc.hyps(1) [OF k] later)
      (simp add: upt_conv_Cons [OF lt])
qed

lemma summary_loop_results:
  "fst (summary_loop net rs i acc tr) =
     acc @ map (\<lambda>j. generatePersonSummary_result (rs ! j)
                 (summary_net net (length tr + 4 * (j - i) + 2) (rs ! j)))
            [i..<length rs]"
proof (induction "length rs - i" arbitrary: i acc tr)
  case 0
  then show ?case by (simp add: summary_loop_done)
next
  case (Suc k)
  then have lt: "i < length rs" and k: "k = length rs - Suc i"
    by auto
  have later: "map (\<lambda>j. generatePersonSummary_result (rs ! j)
                 (summary_net net (length (tr @ summary_block rs i) + 4 * (j - Suc i) + 2) (rs ! j)))
        [Suc i..<length rs] =
      map (\<lambda>j. generatePersonSummary_result (rs ! j)
                 (summary_net net (length tr + 4 * (j - i) + 2) (rs ! j)))
        [Suc i..<length rs]"
  proof (rule map_cong [OF refl])
    fix j assume "j \<in> set [Suc i..<length rs]"
    then have "length (tr @ summary_block rs i) + 4 * (j - Suc i) + 2 =
        length tr + 4 * (j - i) + 2"
      by (auto simp: summary_block_length)
    then show "generatePersonSummary_result (rs ! j)
                 (summary_net net (length (tr @ summary_block rs i) + 4 * (j - Suc i) + 2) (rs ! j)) =
        generatePersonSummary_result (rs ! j)
                 (summary_net net (length tr + 4 * (j - i) + 2) (rs ! j))"
      by (simp only:)
  qed
  show ?case
    by (simp only: summary_loop_step [OF lt] Suc.hyps(1) [OF k] later)
      (simp add: upt_conv_Cons [OF lt])
qed

lemma concat_blocks_length:
  "(\<And>i. length (f i) = 4) \<Longrightarrow> length (concat (map f js)) = 4 * length js"
  by (induction js) simp_all

lemma handleContinue_results_at:
  assumes "sel \<noteq> []"
  shows "run_results (handleContinue net enhanced sel) =
     map (\<lambda>i. searchPerson_result (name (research_targets enhanced sel ! i))
                 (search_net net (4 * i + 5) (name (research_targets enhanced sel ! i))))
       [0..<length sel]"
proof -
  have at: "length [a, b, c] + 4 * (j - 0) + 2 = 4 * j + 5" for j :: nat and a b c :: "(client_request, ui) event"
    by simp
  show ?thesis
    unfolding handleContinue_results [OF assms] search_loop_results
    by (simp only: at research_targets_length append_Nil)
qed

lemma handleContinue_summaries_loop:
  assumes "sel \<noteq> []"
  shows "\<exists>tr. length tr = 4 * length sel + 7 \<and>
     run_summaries (handleContinue net enhanced sel) =
       fst (summary_loop net (run_results (handleContinue net enhanced sel)) 0 [] tr)"
proof -
  let ?as = "research_targets enhanced sel"
  let ?tr1 = "[Ui (SetIsSearching True), Ui (SetShowResults True),
           Ui (SetLoadingState (Some
              \<lparr>stage = Searching, person = Some (name (?as ! 0)),
               progress = 0, total = length ?as\<rparr>))]"
  let ?rs = "fst (search_loop net ?as 0 [] ?tr1)"
  let ?tr3 = "snd (search_loop net ?as 0 [] ?tr1) @
         [Ui (SetLoadingState (Some
                      \<lparr>stage = Searching, person = Some (name (?as ! (length ?as - 1))),
                       progress = length ?as, total = length ?as\<rparr>)),
                    Sleep 500,
                    Ui (SetSearchResults ?rs),
                    Ui (SetLoadingState (Some
                      \<lparr>stage = Summarizing, person = Some (name (?rs ! 0)),
                       progress = 0, total = length ?rs\<rparr>))]"
  have "length ?tr3 = 4 * length sel + 7"
    by (simp add: search_loop_trace concat_blocks_length search_block_length
        research_targets_length)
  moreover have "run_summaries (handleContinue net enhanced sel) =
       fst (summary_loop net (run_results (handleContinue net enhanced sel)) 0 [] ?tr3)"
    using assms by (simp add: handleContinue_def Let_def split_beta)
  ultimately show ?thesis
    by blast
qed

lemma handleContinue_summaries_at:
  assumes "sel \<noteq> []"
  shows "run_summaries (handleContinue net enhanced sel) =
     map (\<lambda>i. generatePersonSummary_result (run_results (handleContinue net enhanced sel) ! i)
                 (summary_net net (4 * length sel + 4 * i + 9)
                    (run_results (handleContinue net enhanced sel) ! i)))
       [0..<length sel]"
proof -
  from handleContinue_summaries_loop [OF assms, of net enhanced]
  obtain tr where len: "length tr = 4 * length sel + 7"
    and run: "run_summaries (handleContinue net enhanced sel) =
       fst (summary_loop net (run_results (handleContinue net enhanced sel)) 0 [] tr)"
    by blast
  have at: "length tr + 4 * (j - 0) + 2 = 4 * length sel + 4 * j + 9" for j
    using len by simp
  show ?thesis
    unfolding run summary_loop_results
    by (simp only: at handleContinue_results_length append_Nil)
qed


subsection \<open>C2: the pipeline is sequential\<close>

text \<open>
  C2.  A run of \<open>handleContinue\<close> over a non-empty selection is sequential.  Leaving
  the state setters aside, its trace is: for each attendee in selection order a 100 ms
  sleep, the search request, its completion; a 500 ms sleep; for each search result in
  the same order a 100 ms sleep, the summary request, its completion; a 500 ms sleep
  after the summaries and a 500 ms sleep in the \<open>finally\<close> block.  So a request is
  issued only after the one before it has settled, no summary request precedes the last
  search's completion, and there is one search and one summary per selected attendee.
  The attendees are the entries of the selection Map in its order; the \<open>i\<close>-th search
  result is what \<open>searchPerson\<close> makes of the reply to the \<open>i\<close>-th attendee's request
  (issued as event \<open>4 i + 5\<close> of the run), and the \<open>i\<close>-th summary is what
  \<open>generatePersonSummary\<close> makes of the reply to the request that carries the \<open>i\<close>-th
  search result (event \<open>4 n + 4 i + 9\<close>): the summary requests follow the selection
  order too.  With nothing selected the run does nothing.
\<close>

theorem handleContinue_sequential:
  "(let r = handleContinue net enhanced sel;
        attendees = research_targets enhanced sel;
        n = length sel
    in (if sel = [] then run_trace r = []
        else schedule (run_trace r) =
          concat (map (\<lambda>a. [Sleep 100, Issued (SearchRequest (name a)),
                             Settled (SearchRequest (name a))]) attendees) @
          [Sleep 500] @
          concat (map (\<lambda>p. [Sleep 100, Issued (SummaryRequest p),
                             Settled (SummaryRequest p)]) (run_results r)) @
          [Sleep 500, Sleep 500]) \<and>
       length attendees = length sel \<and>
       length (run_results r) = length sel \<and>
       attendees =
         map (\<lambda>(k, d). \<lparr>name = research_name enhanced (attendee d),
                          target_email = email (attendee d)\<rparr>) sel \<and>
       run_results r =
         map (\<lambda>i. searchPerson_result (name (attendees ! i))
                     (search_net net (4 * i + 5) (name (attendees ! i)))) [0..<n] \<and>
       run_summaries r =
         map (\<lambda>i. generatePersonSummary_result (run_results r ! i)
                     (summary_net net (4 * n + 4 * i + 9) (run_results r ! i))) [0..<n])"
proof (cases "sel = []")
  case True
  then show ?thesis
    by (simp add: handleContinue_def research_targets_def map_values_def)
next
  case False
  have sched: "schedule (run_trace (handleContinue net enhanced sel)) =
      concat (map (\<lambda>a. [Sleep 100, Issued (SearchRequest (name a)),
                         Settled (SearchRequest (name a))]) (research_targets enhanced sel)) @
      [Sleep 500] @
      concat (map (\<lambda>p. [Sleep 100, Issued (SummaryRequest p),
                         Settled (SummaryRequest p)])
        (run_results (handleContinue net enhanced sel))) @
      [Sleep 500, Sleep 500]"
    unfolding handleContinue_trace [OF False] schedule_append schedule_search_blocks
      schedule_summary_blocks
    by (simp add: schedule_def)
  have targets: "research_targets enhanced sel =
      map (\<lambda>(k, d). \<lparr>name = research_name enhanced (attendee d),
                       target_email = email (attendee d)\<rparr>) sel"
    by (simp add: research_targets_def map_values_def split_def)
  show ?thesis
    unfolding Let_def
    apply (intro conjI)
         apply (simp only: False if_False, rule sched)
        apply (rule research_targets_length)
       apply (rule handleContinue_results_length)
      apply (rule targets)
     apply (rule handleContinue_results_at [OF False])
    apply (rule handleContinue_summaries_at [OF False])
    done
qed

lemma two_targets:
  "research_targets Map.empty two_selected =
    [\<lparr>name = str ''Ann'', target_email = str ''ann@x.org''\<rparr>,
     \<lparr>name = str ''bob'', target_email = str ''bob@x.org''\<rparr>]"
  by (simp add: research_targets_def research_name_def two_selected_def ann_def bob_def
        map_values_def or_else_def str_def cu_def Let_def)

lemma offline_results:
  "run_results (handleContinue offline Map.empty two_selected) =
     [\<lparr>name = str ''Ann'', error = Some (str ''Failed to search for person''), searchResults = []\<rparr>,
      \<lparr>name = str ''bob'', error = Some (str ''Failed to search for person''), searchResults = []\<rparr>]"
  by (simp add: handleContinue_def two_targets Let_def search_loop.simps summary_loop.simps
        searchPerson_def generatePersonSummary_def fetch_def offline_def
        searchPerson_result_def searchPerson_try_def message_or_def)
    (simp add: two_selected_def)

theorem handleContinue_sequential_witness:
  "schedule (run_trace (handleContinue offline Map.empty two_selected)) =
     [Sleep 100, Issued (SearchRequest (str ''Ann'')), Settled (SearchRequest (str ''Ann'')),
      Sleep 100, Issued (SearchRequest (str ''bob'')), Settled (SearchRequest (str ''bob'')),
      Sleep 500,
      Sleep 100,
      Issued (SummaryRequest \<lparr>name = str ''Ann'', error = Some (str ''Failed to search for person''), searchResults = []\<rparr>),
      Settled (SummaryRequest \<lparr>name = str ''Ann'', error = Some (str ''Failed to search for person''), searchResults = []\<rparr>),
      Sleep 100,
      Issued (SummaryRequest \<lparr>name = str ''bob'', error = Some (str ''Failed to search for person''), searchResults = []\<rparr>),
      Settled (SummaryRequest \<lparr>name = str ''bob'', error = Some (str ''Failed to search for person''), searchResults = []\<rparr>),
      Sleep 500, Sleep 500]"
proof -
  have ne: "two_selected \<noteq> []"
    by (simp add: two_selected_def)
  from handleContinue_sequential [of offline Map.empty two_selected]
  have "schedule (run_trace (handleContinue offline Map.empty two_selected)) =
          concat (map (\<lambda>a. [Sleep 100, Issued (SearchRequest (name a)),
                             Settled (SearchRequest (name a))])
             (research_targets Map.empty two_selected)) @
          [Sleep 500] @
          concat (map (\<lambda>p. [Sleep 100, Issued (SummaryRequest p),
                             Settled (SummaryRequest p)])
             (run_results (handleContinue offline Map.empty two_selected))) @
          [Sleep 500, Sleep 500]"
    unfolding Let_def using ne by (elim conjE) (simp only: if_False)
  then show ?thesis
    by (simp add: two_targets offline_results)
qed

lemma loading_append: "loading_updates (a @ b) = loading_updates a @ loading_updates b"
  by (simp add: loading_updates_def)

lemma loading_blocks:
  "(\<And>i. loading_updates (f i) = [g i]) \<Longrightarrow> loading_updates (concat (map f js)) = map g js"
  by (induction js) (simp_all add: loading_append, simp add: loading_updates_def)

lemma loading_search_blocks:
  "loading_updates (concat (map (search_block attendees) js)) =
   map (\<lambda>i. Some \<lparr>stage = Searching, person = Some (name (attendees ! i)),
                    progress = i, total = length attendees\<rparr>) js"
  by (rule loading_blocks) (simp add: search_block_def loading_updates_def)

lemma loading_summary_blocks:
  "loading_updates (concat (map (summary_block rs) js)) =
   map (\<lambda>i. Some \<lparr>stage = Summarizing, person = Some (name (rs ! i)),
                    progress = i, total = length rs\<rparr>) js"
  by (rule loading_blocks) (simp add: summary_block_def loading_updates_def)

lemma progress_effect_ge: "w \<le> progress_effect (Some l) w"
  by (simp add: progress_effect_def Let_def)

lemma widths_sorted: "sorted (w # widths w (map Some seen))"
proof (induction seen arbitrary: w)
  case Nil
  then show ?case by simp
next
  case (Cons l seen)
  have "w \<le> progress_effect (Some l) w"
    by (rule progress_effect_ge)
  moreover have "sorted (progress_effect (Some l) w # widths (progress_effect (Some l) w) (map Some seen))"
    by (rule Cons.IH)
  ultimately show ?case
    by (auto simp: order_trans)
qed

lemma widths_append: "widths w (a @ b) = widths w a @ widths (last (w # widths w a)) b"
  by (induction a arbitrary: w) simp_all

lemma handleContinue_loading:
  assumes "sel \<noteq> []"
  shows "loading_updates (run_trace (handleContinue net enhanced sel)) =
    map Some (run_states (research_targets enhanced sel)
                (run_results (handleContinue net enhanced sel))) @ [None]"
  unfolding handleContinue_trace [OF assms] loading_append loading_search_blocks
    loading_summary_blocks run_states_def
  by (simp add: loading_updates_def comp_def)

lemma run_states_bounds:
  "length rs = length attendees \<Longrightarrow> l \<in> set (run_states attendees rs) \<Longrightarrow>
   total l = length attendees \<and> progress l \<le> length attendees"
  by (auto simp: run_states_def)

lemma run_states_searching:
  "map progress (filter (\<lambda>l. stage l = Searching) (run_states attendees rs)) =
   0 # [0..<length attendees] @ [length attendees]"
  by (simp add: run_states_def comp_def filter_map map_idI)

lemma run_states_summarizing:
  "map progress (filter (\<lambda>l. stage l = Summarizing) (run_states attendees rs)) =
   0 # [0..<length rs] @ [length rs]"
  by (simp add: run_states_def comp_def filter_map map_idI)

lemma sorted_steps: "sorted (0 # [0..<n] @ [n::nat])"
  by (auto simp: sorted_append)

subsection \<open>C5: progress reporting\<close>

text \<open>
  C5.  In a run of the pipeline over \<open>n\<close> selected attendees (\<open>n > 0\<close>) the calls
  of \<open>setLoadingState\<close> are a list of states followed by the one clearing call.
  Every state has \<open>total = n\<close> and \<open>progress \<le> n\<close>; within each stage the
  progress values are non-decreasing and the last one is \<open>n\<close>.  Starting from width 0
  the progress-bar widths these states produce are non-decreasing, and the clearing call
  sets the width to 0.  This is because of the effect itself: it sets the width to 0
  when the state is cleared, and otherwise replaces the width only by a strictly larger
  target \<open>progress / total * 100\<close>, so any sequence of states gives non-decreasing
  widths.
\<close>

theorem progress_bounded_monotone:
  assumes "sel \<noteq> []"
  shows "(\<exists>states.
        loading_updates (run_trace (handleContinue net enhanced sel)) = map Some states @ [None] \<and>
        (\<forall>l \<in> set states. total l = length sel \<and> progress l \<le> length sel) \<and>
        (\<forall>st \<in> {Searching, Summarizing}.
            sorted (map progress (filter (\<lambda>l. stage l = st) states)) \<and>
            map progress (filter (\<lambda>l. stage l = st) states) \<noteq> [] \<and>
            last (map progress (filter (\<lambda>l. stage l = st) states)) = length sel) \<and>
        sorted (0 # widths 0 (map Some states)) \<and>
        last (widths 0 (map Some states @ [None])) = 0) \<and>
     (\<forall>w seen. sorted (w # widths w (map Some seen))) \<and>
     (\<forall>l w. progress_effect (Some l) w =
        (if of_nat (progress l) / of_nat (total l) * 100 > w
         then of_nat (progress l) / of_nat (total l) * 100 else w)) \<and>
     (\<forall>w. progress_effect None w = 0)"
proof -
  let ?as = "research_targets enhanced sel"
  let ?rs = "run_results (handleContinue net enhanced sel)"
  let ?states = "run_states ?as ?rs"
  have n: "length ?as = length sel" "length ?rs = length sel"
    by (simp_all add: research_targets_length handleContinue_results_length)
  have 1: "loading_updates (run_trace (handleContinue net enhanced sel)) = map Some ?states @ [None]"
    by (rule handleContinue_loading [OF assms])
  have 2: "\<forall>l \<in> set ?states. total l = length sel \<and> progress l \<le> length sel"
    using run_states_bounds [of ?rs ?as] n by auto
  have 3: "\<forall>st \<in> {Searching, Summarizing}.
            sorted (map progress (filter (\<lambda>l. stage l = st) ?states)) \<and>
            map progress (filter (\<lambda>l. stage l = st) ?states) \<noteq> [] \<and>
            last (map progress (filter (\<lambda>l. stage l = st) ?states)) = length sel"
  proof -
    have a: "sorted (map progress (filter (\<lambda>l. stage l = Searching) ?states)) \<and>
        map progress (filter (\<lambda>l. stage l = Searching) ?states) \<noteq> [] \<and>
        last (map progress (filter (\<lambda>l. stage l = Searching) ?states)) = length sel"
      unfolding run_states_searching n
      using sorted_steps [of "length sel"] by simp
    have b: "sorted (map progress (filter (\<lambda>l. stage l = Summarizing) ?states)) \<and>
        map progress (filter (\<lambda>l. stage l = Summarizing) ?states) \<noteq> [] \<and>
        last (map progress (filter (\<lambda>l. stage l = Summarizing) ?states)) = length sel"
      unfolding run_states_summarizing n
      using sorted_steps [of "length sel"] by simp
    from a b show ?thesis
      by blast
  qed
  have 4: "sorted (0 # widths 0 (map Some ?states))"
    by (rule widths_sorted)
  have 5: "last (widths 0 (map Some ?states @ [None])) = 0"
    by (simp add: widths_append progress_effect_def)
  have 6: "\<forall>w seen. sorted (w # widths w (map Some seen))"
    using widths_sorted by blast
  have 7: "\<forall>l w. progress_effect (Some l) w =
        (if of_nat (progress l) / of_nat (total l) * 100 > w
         then of_nat (progress l) / of_nat (total l) * 100 else w)"
    by (simp add: progress_effect_def Let_def)
  have 8: "\<forall>w. progress_effect None w = 0"
    by (simp add: progress_effect_def)
  from 1 2 3 4 5 6 7 8 show ?thesis
    by blast
qed

theorem progress_bounded_monotone_witness:
  "two_selected \<noteq> [] \<and>
   widths 0 (loading_updates (run_trace (handleContinue offline Map.empty two_selected))) =
     [0, 0, 50, 100, 100, 100, 100, 100, 0]"
proof -
  have ne: "two_selected \<noteq> []"
    by (simp add: two_selected_def)
  have len: "length (research_targets Map.empty two_selected) = 2"
    by (simp add: two_targets)
  from progress_bounded_monotone [OF ne, of offline Map.empty] ne show ?thesis
    by (simp add: handleContinue_loading [OF ne] run_states_def two_targets offline_results
        upt_rec progress_effect_def Let_def)
qed

lemma handleContinue_result_names:
  assumes "\<forall>t nm. from_search_route nm (search_net net t nm)"
  shows "map name (run_results (handleContinue net enhanced sel)) =
    map name (research_targets enhanced sel)"
  by (cases "sel = []")
    (simp_all add: handleContinue_def Let_def split_beta search_loop_names [OF assms]
      research_targets_def map_values_def)

lemma handleContinue_summary_names:
  assumes "\<forall>t p. from_summary_route p (summary_net net t p)"
  shows "map name (run_summaries (handleContinue net enhanced sel)) =
    map name (run_results (handleContinue net enhanced sel))"
  by (cases "sel = []")
    (simp_all add: handleContinue_def Let_def split_beta summary_loop_names [OF assms])

subsection \<open>C3: one result and one summary per attendee, names kept\<close>

text \<open>
  C3.  When the replies to the two local routes come from this repository's route
  handlers (an ok JSON body is one the handler answers for the request sent; failures
  are unrestricted): \<open>searchPerson\<close> returns a record whose name is the input name,
  also on failure; \<open>generatePersonSummary\<close> returns a record whose name is the name
  of its argument, also on failure; and \<open>handleContinue\<close> builds a results array
  and a summaries array with one element per selected attendee, the \<open>i\<close>-th of each
  named as the \<open>i\<close>-th attendee.
\<close>

theorem names_preserved:
  assumes s: "\<forall>t nm. from_search_route nm (search_net net t nm)"
    and g: "\<forall>t p. from_summary_route p (summary_net net t p)"
  shows "name (fst (searchPerson (search_net net) nm tr)) = nm \<and>
    name (fst (generatePersonSummary (summary_net net) p tr)) = name p \<and>
    (let r = handleContinue net enhanced sel;
         attendees = research_targets enhanced sel
     in length attendees = length sel \<and>
        length (run_results r) = length attendees \<and>
        length (run_summaries r) = length attendees \<and>
        (\<forall>i < length attendees.
           name (run_results r ! i) = name (attendees ! i) \<and>
           name (run_summaries r ! i) = name (attendees ! i)))"
proof -
  let ?r = "handleContinue net enhanced sel"
  let ?as = "research_targets enhanced sel"
  have a: "name (fst (searchPerson (search_net net) nm tr)) = nm"
    using s by (simp add: searchPerson_def fetch_def searchPerson_result_name)
  have b: "name (fst (generatePersonSummary (summary_net net) p tr)) = name p"
    using g by (simp add: generatePersonSummary_def fetch_def generatePersonSummary_result_name)
  have n: "length ?as = length sel" "length (run_results ?r) = length ?as"
    "length (run_summaries ?r) = length ?as"
    by (simp_all add: research_targets_length handleContinue_results_length
        handleContinue_summaries_length)
  have rn: "map name (run_results ?r) = map name ?as"
    by (rule handleContinue_result_names [OF s])
  have sn: "map name (run_summaries ?r) = map name ?as"
    using handleContinue_summary_names [OF g] rn by simp
  have c: "name (run_results ?r ! i) = name (?as ! i) \<and>
      name (run_summaries ?r ! i) = name (?as ! i)" if "i < length ?as" for i
  proof -
    have "map name (run_results ?r) ! i = map name ?as ! i"
      "map name (run_summaries ?r) ! i = map name ?as ! i"
      by (simp_all only: rn sn)
    with that n show ?thesis
      by simp
  qed
  from a b n c show ?thesis
    by (simp add: Let_def)
qed

lemma online_search: "\<forall>t nm. from_search_route nm (search_net online t nm)"
proof (intro allI)
  fix t :: nat and nm :: jsstring
  have "exa_POST (Inr nm) (Some (str ''k''))
      (\<lambda>t q. Resolved \<lparr>status = 200, statusText = str ''OK'', body_text = Inl NonError,
         body_json = Inr \<lparr>results = ([] :: ExaSearchResult list)\<rparr>, body_error = Inl NonError\<rparr>)
      ([] :: (exa_call, unit) event list)
    = (\<lparr>nr_body = Json_ok \<lparr>name = nm, error = None, searchResults = []\<rparr>, nr_status = 200\<rparr>,
       snd (exa_POST (Inr nm) (Some (str ''k''))
      (\<lambda>t q. Resolved \<lparr>status = 200, statusText = str ''OK'', body_text = Inl NonError,
         body_json = Inr \<lparr>results = ([] :: ExaSearchResult list)\<rparr>, body_error = Inl NonError\<rparr>)
      ([] :: (exa_call, unit) event list)))"
    by (simp add: exa_POST_def fetch_def Let_def ok_def str_def)
  then show "from_search_route nm (search_net online t nm)"
    unfolding from_search_route_def online_def
    by (auto simp: ok_def)
qed

lemma online_summary: "\<forall>t p. from_summary_route p (summary_net online t p)"
proof (intro allI)
  fix t :: nat and p :: ExaPersonInfo
  let ?onet = "\<lambda>(t::nat) (q::openai_call). Resolved \<lparr>status = 200, statusText = str ''OK'',
         body_text = Inl NonError, body_json = Inr \<lparr>choices = [str ''Brief'']\<rparr>,
         body_error = Inl NonError\<rparr>"
  have "summary_POST (Inr p) None ?onet ([] :: (openai_call, unit) event list)
    = (\<lparr>nr_body = Json_ok \<lparr>name = name p, error = None, summary = str ''Brief'',
          sources = Some (map (\<lambda>result. \<lparr>title = title result, url = url result\<rparr>)
                            (searchResults p))\<rparr>, nr_status = 200\<rparr>,
       snd (summary_POST (Inr p) None ?onet ([] :: (openai_call, unit) event list)))"
    by (simp add: summary_POST_def fetch_def Let_def ok_def)
  then show "from_summary_route p (summary_net online t p)"
    unfolding from_summary_route_def online_def
    by (auto simp: ok_def)
qed

lemma online_results:
  "run_results (handleContinue online Map.empty two_selected) =
     [\<lparr>name = str ''Ann'', error = None, searchResults = []\<rparr>,
      \<lparr>name = str ''bob'', error = None, searchResults = []\<rparr>]"
  by (simp add: handleContinue_def two_targets Let_def search_loop.simps summary_loop.simps
        searchPerson_def generatePersonSummary_def fetch_def online_def
        searchPerson_result_def searchPerson_try_def ok_def)
    (simp add: two_selected_def)

lemma online_summaries:
  "run_summaries (handleContinue online Map.empty two_selected) =
     [\<lparr>name = str ''Ann'', error = None, summary = str ''Brief'', sources = Some []\<rparr>,
      \<lparr>name = str ''bob'', error = None, summary = str ''Brief'', sources = Some []\<rparr>]"
  by (simp add: handleContinue_def two_targets Let_def search_loop.simps summary_loop.simps
        searchPerson_def generatePersonSummary_def fetch_def online_def
        searchPerson_result_def searchPerson_try_def ok_def
        generatePersonSummary_result_def generatePersonSummary_try_def)
    (simp add: two_selected_def)

theorem names_preserved_witness:
  "(\<forall>t nm. from_search_route nm (search_net online t nm)) \<and>
   (\<forall>t p. from_summary_route p (summary_net online t p)) \<and>
   map name (research_targets Map.empty two_selected) = [str ''Ann'', str ''bob''] \<and>
   map name (run_results (handleContinue online Map.empty two_selected)) = [str ''Ann'', str ''bob''] \<and>
   map name (run_summaries (handleContinue online Map.empty two_selected)) = [str ''Ann'', str ''bob'']"
  using names_preserved [OF online_search online_summary, of "[]" "[] :: trace"
      "\<lparr>name = [], error = None, searchResults = []\<rparr>" Map.empty two_selected]
  by (simp add: online_search online_summary two_targets online_results online_summaries)

subsection \<open>C1: offsets of the document requests\<close>

lemma inserted_length_append [simp]:
  "inserted_length (a @ b) = inserted_length a + inserted_length b"
  by (simp add: inserted_length_def)

lemma inserted_length_simps [simp]:
  "inserted_length [] = 0"
  "inserted_length (InsertText i t # rs) = length t + inserted_length rs"
  "inserted_length (UpdateParagraphStyle s e n # rs) = inserted_length rs"
  "inserted_length (UpdateTextStyle s e n # rs) = inserted_length rs"
  by (simp_all add: inserted_length_def)

lemma insertions_simps [simp]:
  "insertions [] = []"
  "insertions (InsertText i t # rs) = InsertText i t # insertions rs"
  "insertions (UpdateParagraphStyle s e n # rs) = insertions rs"
  "insertions (UpdateTextStyle s e n # rs) = insertions rs"
  "insertions (a @ b) = insertions a @ insertions b"
  by (simp_all add: insertions_def)

lemma placed_append:
  "placed pos lr (a @ b) \<longleftrightarrow>
     placed pos lr a \<and> placed (pos + inserted_length a) (last_range lr a) b"
proof (induction a arbitrary: pos lr)
  case Nil
  then show ?case by simp
next
  case (Cons r a)
  then show ?case by (cases r) (auto simp: add.assoc)
qed

lemma last_range_append: "last_range lr (a @ b) = last_range (last_range lr a) b"
proof (induction a arbitrary: lr)
  case Nil
  then show ?case by simp
next
  case (Cons r a)
  then show ?case by (cases r) auto
qed

lemma last_range_insertions:
  "last_range lr rs =
     (if insertions rs = [] then lr
      else Some (location (last (insertions rs)),
                 location (last (insertions rs)) + length (inserted (last (insertions rs)))))"
proof (induction rs arbitrary: lr)
  case Nil
  then show ?case by simp
next
  case (Cons r rs)
  then show ?case by (cases r) auto
qed

lemma placed_insert_offset:
  "placed pos lr rs \<Longrightarrow> k < length rs \<Longrightarrow> rs ! k = InsertText i t \<Longrightarrow>
   i = pos + inserted_length (take k rs)"
proof (induction rs arbitrary: pos lr k)
  case Nil
  then show ?case by simp
next
  case (Cons r rs)
  show ?case
  proof (cases k)
    case 0
    with Cons.prems show ?thesis by auto
  next
    case (Suc m)
    with Cons.prems Cons.IH [of _ _ m] show ?thesis
      by (cases r) (auto simp: add.assoc)
  qed
qed

lemma placed_increasing:
  "placed pos lr rs \<Longrightarrow>
   sorted_wrt (<) (map location (insertions rs)) \<and>
   (\<forall>r \<in> set (insertions rs). pos \<le> location r)"
proof (induction rs arbitrary: pos lr)
  case Nil
  then show ?case by simp
next
  case (Cons r rs)
  show ?case
  proof (cases r)
    case (InsertText i t)
    with Cons.prems have p: "i = pos" "t \<noteq> []" "placed (pos + length t) (Some (i, i + length t)) rs"
      by auto
    from Cons.IH [OF p(3)] p(2) show ?thesis
      unfolding InsertText p(1)
      by (cases t) (auto simp: less_eq_Suc_le [symmetric] | fastforce)+
  next
    case (UpdateParagraphStyle s e n)
    with Cons.prems Cons.IH [of pos lr] show ?thesis by auto
  next
    case (UpdateTextStyle s e n)
    with Cons.prems Cons.IH [of pos lr] show ?thesis by auto
  qed
qed

lemma placed_style_range:
  "placed pos lr rs \<Longrightarrow> k < length rs \<Longrightarrow>
   rs ! k = UpdateParagraphStyle s e n \<or> rs ! k = UpdateTextStyle s e n \<Longrightarrow>
   \<exists>a b. last_range lr (take k rs) = Some (a, b) \<and> a \<le> s \<and> s \<le> e \<and> e \<le> b"
proof (induction rs arbitrary: pos lr k)
  case Nil
  then show ?case by simp
next
  case (Cons r rs)
  show ?case
  proof (cases k)
    case 0
    with Cons.prems show ?thesis by (auto split: option.splits)
  next
    case (Suc m)
    with Cons.prems Cons.IH [of _ _ m] show ?thesis
      by (cases r) auto
  qed
qed

lemma good_initial: "good \<lparr>currentIndex = 1, requests = []\<rparr>"
  by (simp add: good_def)

lemma good_title: "good b \<Longrightarrow> t \<noteq> [] \<Longrightarrow> good (title_section t b)"
  by (simp add: good_def title_section_def push_def advance_def Let_def placed_append
      last_range_append)

lemma good_heading: "good b \<Longrightarrow> t \<noteq> [] \<Longrightarrow> good (heading_section t b)"
  by (cases t) (simp_all add: good_def heading_section_def push_def advance_def placed_append)

lemma good_bullets: "good b \<Longrightarrow> t \<noteq> [] \<Longrightarrow> good (bullets_section t b)"
  by (simp add: good_def bullets_section_def push_def advance_def placed_append)

lemma good_summary: "good b \<Longrightarrow> t \<noteq> [] \<Longrightarrow> good (summary_section t b)"
  by (simp add: good_def summary_section_def push_def advance_def placed_append)

lemma good_source: "good b \<Longrightarrow> good (source_section x b)"
  by (cases x)
    (simp add: good_def source_section_def push_def advance_def Let_def placed_append nl_def
      str_def)

lemma good_sources: "good b \<Longrightarrow> good (fold source_section xs b)"
  by (induction xs arbitrary: b) (simp_all add: good_source)

lemma texts_sections:
  "texts (title_section t b) = texts b @ [t]"
  "texts (heading_section t b) = texts b @ [t]"
  "texts (bullets_section t b) = texts b @ [t]"
  "texts (summary_section t b) = texts b @ [t]"
  by (simp_all add: texts_def title_section_def heading_section_def bullets_section_def
      summary_section_def push_def advance_def Let_def)

lemma texts_source:
  "texts (source_section (index, source) b) =
     texts b @ [show_nat (index + 1) @ str ''. '', title source @ nl]"
  by (simp add: texts_def source_section_def push_def advance_def Let_def str_def)

lemma texts_sources:
  "texts (fold source_section (enumerate i ss) b) =
     texts b @ concat (map (\<lambda>(index, source). [show_nat (index + 1) @ str ''. '', title source @ nl])
                        (enumerate i ss))"
  by (induction ss arbitrary: i b) (simp_all add: texts_source)

lemma document_requests_good:
  "placed 1 None (document_requests personSummary today)"
proof -
  have ne: "str ''Key Takeaways'' @ nl @ nl \<noteq> []" "str ''Action Items'' @ nl @ nl \<noteq> []"
    "str ''Professional Summary'' @ nl @ nl \<noteq> []" "str ''Sources'' @ nl @ nl \<noteq> []"
    "summary personSummary @ nl @ nl \<noteq> []"
    "name personSummary @ str '' '' @ today @ str '' - Meeting Notes'' @ nl \<noteq> []"
    by (simp_all add: nl_def)
  have "good (fold source_section xs
      (heading_section (str ''Sources'' @ nl @ nl)
        (summary_section (summary personSummary @ nl @ nl)
          (heading_section (str ''Professional Summary'' @ nl @ nl)
            (bullets_section ([bullet] @ str '' '' @ nl @ [bullet] @ str '' '' @ nl @ nl)
              (heading_section (str ''Action Items'' @ nl @ nl)
                (bullets_section
                   ([bullet] @ str '' '' @ nl @ [bullet] @ str '' '' @ nl @ [bullet] @ str '' '' @ nl @ nl)
                  (heading_section (str ''Key Takeaways'' @ nl @ nl)
                    (title_section
                       (name personSummary @ str '' '' @ today @ str '' - Meeting Notes'' @ nl)
                       \<lparr>currentIndex = 1, requests = []\<rparr>)))))))))" for xs
    by (intro good_sources good_heading good_summary good_bullets good_title good_initial ne)
      simp_all
  then show ?thesis
    by (simp add: document_requests_def Let_def good_def)
qed

lemma document_requests_texts:
  "map inserted (insertions (document_requests personSummary today)) =
     [name personSummary @ str '' '' @ today @ str '' - Meeting Notes'' @ nl,
      str ''Key Takeaways'' @ nl @ nl,
      [bullet] @ str '' '' @ nl @ [bullet] @ str '' '' @ nl @ [bullet] @ str '' '' @ nl @ nl,
      str ''Action Items'' @ nl @ nl,
      [bullet] @ str '' '' @ nl @ [bullet] @ str '' '' @ nl @ nl,
      str ''Professional Summary'' @ nl @ nl,
      summary personSummary @ nl @ nl,
      str ''Sources'' @ nl @ nl] @
     concat (map (\<lambda>(index, source). [show_nat (index + 1) @ str ''. '', title source @ nl])
               (enumerate 0 (case sources personSummary of None \<Rightarrow> [] | Some ss \<Rightarrow> ss)))"
proof -
  have e: "(case sources personSummary of None \<Rightarrow> [] | Some ss \<Rightarrow> enumerate 0 ss) =
      enumerate 0 (case sources personSummary of None \<Rightarrow> [] | Some ss \<Rightarrow> ss)"
    by (simp split: option.splits)
  show ?thesis
    unfolding document_requests_def Let_def e texts_def [symmetric] texts_sources texts_sections
    by (simp add: texts_def)
qed

text \<open>
  C1.  In the request list of \<open>createMeetingDoc\<close> every \<open>insertText\<close> request
  is located at 1 plus the total length of the texts inserted by the requests before
  it; the \<open>insertText\<close> locations are strictly increasing; the inserted texts are,
  in order, the title, the Key Takeaways heading, its bullets, the Action Items heading,
  its bullets, the Professional Summary heading, the summary text, the Sources heading
  and then for each source its number and its title line; and the range of every
  \<open>updateParagraphStyle\<close> or \<open>updateTextStyle\<close> request lies within the text of
  the latest insertion before it, the text of its own section.
\<close>

theorem createMeetingDoc_offsets:
  "(let reqs = document_requests personSummary today;
        srcs = (case sources personSummary of None \<Rightarrow> [] | Some ss \<Rightarrow> ss)
    in (\<forall>k i t. k < length reqs \<and> reqs ! k = InsertText i t \<longrightarrow>
          i = 1 + inserted_length (take k reqs)) \<and>
       sorted_wrt (<) (map location (insertions reqs)) \<and>
       map inserted (insertions reqs) =
         [name personSummary @ str '' '' @ today @ str '' - Meeting Notes'' @ nl,
          str ''Key Takeaways'' @ nl @ nl,
          [bullet] @ str '' '' @ nl @ [bullet] @ str '' '' @ nl @ [bullet] @ str '' '' @ nl @ nl,
          str ''Action Items'' @ nl @ nl,
          [bullet] @ str '' '' @ nl @ [bullet] @ str '' '' @ nl @ nl,
          str ''Professional Summary'' @ nl @ nl,
          summary personSummary @ nl @ nl,
          str ''Sources'' @ nl @ nl] @
         concat (map (\<lambda>(index, source). [show_nat (index + 1) @ str ''. '', title source @ nl])
                   (enumerate 0 srcs)) \<and>
       (\<forall>k s e n. k < length reqs \<and>
            (reqs ! k = UpdateParagraphStyle s e n \<or> reqs ! k = UpdateTextStyle s e n) \<longrightarrow>
          insertions (take k reqs) \<noteq> [] \<and>
          location (last (insertions (take k reqs))) \<le> s \<and> s \<le> e \<and>
          e \<le> location (last (insertions (take k reqs))) +
                length (inserted (last (insertions (take k reqs))))))"
proof -
  let ?reqs = "document_requests personSummary today"
  have p: "placed 1 None ?reqs"
    by (rule document_requests_good)
  have a: "\<forall>k i t. k < length ?reqs \<and> ?reqs ! k = InsertText i t \<longrightarrow>
      i = 1 + inserted_length (take k ?reqs)"
    using placed_insert_offset [OF p] by blast
  have b: "sorted_wrt (<) (map location (insertions ?reqs))"
    using placed_increasing [OF p] by blast
  have d: "insertions (take k ?reqs) \<noteq> [] \<and>
      location (last (insertions (take k ?reqs))) \<le> s \<and> s \<le> e \<and>
      e \<le> location (last (insertions (take k ?reqs))) +
            length (inserted (last (insertions (take k ?reqs))))"
    if "k < length ?reqs"
      "?reqs ! k = UpdateParagraphStyle s e n \<or> ?reqs ! k = UpdateTextStyle s e n" for k s e n
  proof -
    from placed_style_range [OF p that] obtain x y
      where "last_range None (take k ?reqs) = Some (x, y)" "x \<le> s" "s \<le> e" "e \<le> y"
      by blast
    then show ?thesis
      by (auto simp: last_range_insertions split: if_splits)
  qed
  from a b d document_requests_texts [of personSummary today] show ?thesis
    unfolding Let_def by blast
qed

theorem createMeetingDoc_offsets_witness:
  "map location (insertions (document_requests brief (str ''1/2/2025''))) =
     [1, 29, 44, 54, 68, 75, 97, 112, 121, 124] \<and>
   map (\<lambda>r. length (inserted r)) (insertions (document_requests brief (str ''1/2/2025''))) =
     [28, 15, 10, 14, 7, 22, 15, 9, 3, 2]"
  using createMeetingDoc_offsets [of brief "str ''1/2/2025''"]
  by (simp add: document_requests_def brief_def Let_def title_section_def heading_section_def
      bullets_section_def summary_section_def source_section_def push_def advance_def
      str_def nl_def show_nat.simps)

subsection \<open>C9: source numbering\<close>

lemma strip_prefix_Some: "strip_prefix p t = Some r \<longleftrightarrow> t = p @ r"
  by (induction p t rule: strip_prefix.induct) auto

lemma strip_prefix_None: "strip_prefix p t = None \<longleftrightarrow> (\<forall>r. t \<noteq> p @ r)"
  using strip_prefix_Some [of p t] by (cases "strip_prefix p t") auto

lemma first_occ_Some:
  "first_occ sep t = Some (u, v) \<Longrightarrow> t = u @ sep @ v"
  by (induction t arbitrary: u)
    (auto split: if_splits option.splits simp: strip_prefix_Some)

lemma first_occ_leftmost:
  "first_occ sep t = Some (u, v) \<Longrightarrow> t = p @ sep @ q \<Longrightarrow> length u \<le> length p"
proof (induction t arbitrary: u p)
  case Nil
  then show ?case by (auto split: if_splits)
next
  case (Cons c cs)
  show ?case
  proof (cases "strip_prefix sep (c # cs)")
    case (Some r)
    with Cons.prems(1) show ?thesis by simp
  next
    case None
    with Cons.prems(1) obtain u' where u: "first_occ sep cs = Some (u', v)" "u = c # u'"
      by (auto split: option.splits)
    from None Cons.prems(2) obtain p' where p: "p = c # p'"
      by (cases p) (auto simp: strip_prefix_None)
    with Cons.prems(2) have "cs = p' @ sep @ q" by simp
    from Cons.IH [OF u(1) this] u(2) p show ?thesis by simp
  qed
qed

lemma first_occ_None:
  "first_occ sep t = None \<Longrightarrow> t \<noteq> p @ sep @ q"
proof (induction t arbitrary: p)
  case Nil
  then show ?case by (auto split: if_splits)
next
  case (Cons c cs)
  from Cons.prems have n: "strip_prefix sep (c # cs) = None" "first_occ sep cs = None"
    by (auto split: option.splits)
  show ?case
  proof (cases p)
    case Nil
    with n(1) show ?thesis by (auto simp: strip_prefix_None)
  next
    case (Cons d p')
    with Cons.IH [OF n(2), of p'] show ?thesis by auto
  qed
qed

lemma link_text_None:
  "sep \<noteq> [] \<Longrightarrow> first_occ sep t = None \<Longrightarrow> link_text sep a t = [Text t]"
  by (simp add: link_text_def split_js.simps [of sep t])

lemma split_js_nonempty: "sep \<noteq> [] \<Longrightarrow> split_js sep t \<noteq> []"
  by (subst split_js.simps) (auto split: option.splits)

lemma link_text_pieces: "sep \<noteq> [] \<Longrightarrow> link_text sep a t = link_pieces a (split_js sep t)"
  using split_js_nonempty [of sep t]
  by (cases "split_js sep t") (auto simp: link_text_def Let_def)

lemma link_text_Some:
  assumes "sep \<noteq> []" "first_occ sep t = Some (u, v)"
  shows "link_text sep a t = Text u # a # link_text sep a v"
proof -
  have s: "split_js sep t = u # split_js sep v"
    using assms by (simp add: split_js.simps [of sep t])
  obtain w ws where w: "split_js sep v = w # ws"
    using split_js_nonempty [OF assms(1), of v] by (cases "split_js sep v") auto
  show ?thesis
    using assms(1) by (simp add: link_text_pieces s w)
qed

lemma shown_simps [simp]:
  "shown [] = []"
  "shown (Text t # ps) = t @ shown ps"
  "shown (Anchor h ti l # ps) = l @ shown ps"
  "shown (ps @ qs) = shown ps @ shown qs"
  by (simp_all add: shown_def)

lemma shown_link_text:
  assumes "sep \<noteq> []"
  shows "shown (link_text sep (Anchor h ti sep) t) = t"
proof (induction t rule: length_induct)
  case (1 t)
  show ?case
  proof (cases "first_occ sep t")
    case None
    then show ?thesis by (simp add: link_text_None [OF assms])
  next
    case (Some uv)
    obtain u v where uv: "uv = (u, v)" by (cases uv)
    with Some have f: "first_occ sep t = Some (u, v)" by simp
    from first_occ_Some [OF f] have t: "t = u @ sep @ v" .
    with assms have "length v < length t" by (cases sep) auto
    with 1 have "shown (link_text sep (Anchor h ti sep) v) = v" by blast
    then have "shown (link_text sep (Anchor h ti sep) t) = u @ sep @ v"
      by (simp add: link_text_Some [OF assms f])
    with t show ?thesis by simp
  qed
qed

lemma append_split_left:
  "a @ b = c @ d \<Longrightarrow> length a \<le> length c \<Longrightarrow> \<exists>e. c = a @ e \<and> b = e @ d"
  by (auto simp: append_eq_append_conv2)

lemma linked_same:
  assumes sep: "sep \<noteq> []" and ap: "apart sep sep"
  shows "t = pre @ sep @ post \<Longrightarrow>
    \<exists>before after. link_text sep (Anchor h ti sep) t = before @ [Anchor h ti sep] @ after \<and>
       shown before = pre"
proof (induction t arbitrary: pre rule: length_induct)
  case (1 t)
  let ?a = "Anchor h ti sep"
  from first_occ_None [of sep t pre post] "1.prems" obtain u v
    where f: "first_occ sep t = Some (u, v)"
    by (cases "first_occ sep t") auto
  have t: "t = u @ sep @ v" by (rule first_occ_Some [OF f])
  have le: "length u \<le> length pre" by (rule first_occ_leftmost [OF f "1.prems"])
  have lt: "link_text sep ?a t = Text u # ?a # link_text sep ?a v"
    by (rule link_text_Some [OF sep f])
  have eq: "u @ sep @ v = pre @ sep @ post"
    using t "1.prems" by simp
  from ap eq have "length u + length sep \<le> length pre \<or> length pre + length sep \<le> length u \<or> u = pre"
    unfolding apart_def by blast
  then consider (far) "length u + length sep \<le> length pre" | (same) "u = pre"
    using le sep by (cases sep) auto
  then show ?case
  proof cases
    case same
    have "link_text sep ?a t = [Text u] @ [?a] @ link_text sep ?a v"
      by (simp add: lt)
    with same show ?thesis by (metis shown_simps(1,2) append_Nil2)
  next
    case far
    from eq have "(u @ sep) @ v = pre @ (sep @ post)" by simp
    from append_split_left [OF this [symmetric]] far obtain e
      where e: "pre = (u @ sep) @ e" "v = e @ sep @ post"
      by (metis append_split_left [OF \<open>(u @ sep) @ v = pre @ (sep @ post)\<close>] length_append)
    have "length v < length t" using t sep by (cases sep) auto
    with 1 e(2) obtain b' a' where
      ih: "link_text sep ?a v = b' @ [?a] @ a'" "shown b' = e"
      by blast
    have "link_text sep ?a t = (Text u # ?a # b') @ [?a] @ a'"
      by (simp add: lt ih(1))
    moreover have "shown (Text u # ?a # b') = pre"
      by (simp add: ih(2) e(1))
    ultimately show ?thesis by blast
  qed
qed

lemma pending_other:
  assumes sep: "sep \<noteq> []" and ap: "apart sep tag" and ne: "sep \<noteq> tag"
  shows "t = pre @ tag @ post \<Longrightarrow>
    \<exists>before u1 u2 after.
       link_text sep (Anchor h ti sep) t = before @ [Text (u1 @ tag @ u2)] @ after \<and>
       shown before @ u1 = pre"
proof (induction t arbitrary: pre rule: length_induct)
  case (1 t)
  let ?a = "Anchor h ti sep"
  show ?case
  proof (cases "first_occ sep t")
    case None
    have "link_text sep ?a t = [Text t]"
      by (rule link_text_None [OF sep None])
    also have "\<dots> = [] @ [Text (pre @ tag @ post)] @ []"
      using "1.prems" by simp
    finally show ?thesis by (metis shown_simps(1) append_Nil)
  next
    case (Some uv)
    obtain u v where "uv = (u, v)" by (cases uv)
    with Some have f: "first_occ sep t = Some (u, v)" by simp
    have t: "t = u @ sep @ v" by (rule first_occ_Some [OF f])
    have lt: "link_text sep ?a t = Text u # ?a # link_text sep ?a v"
      by (rule link_text_Some [OF sep f])
    have eq: "u @ sep @ v = pre @ tag @ post"
      using t "1.prems" by simp
    from ap eq ne
    consider (far) "length u + length sep \<le> length pre" | (inside) "length pre + length tag \<le> length u"
      unfolding apart_def by blast
    then show ?thesis
    proof cases
      case inside
      from eq have "(pre @ tag) @ post = u @ (sep @ v)" by simp
      from append_split_left [OF this] inside obtain e where e: "u = (pre @ tag) @ e"
        by auto
      have "link_text sep ?a t = [] @ [Text (pre @ tag @ e)] @ (?a # link_text sep ?a v)"
        by (simp add: lt e)
      then show ?thesis by (metis shown_simps(1) append_Nil)
    next
      case far
      from eq have "(u @ sep) @ v = pre @ (tag @ post)" by simp
      from append_split_left [OF this] far obtain e
        where e: "pre = (u @ sep) @ e" "v = e @ tag @ post"
        by auto
      have "length v < length t" using t sep by (cases sep) auto
      with 1 e(2) obtain b' u1 u2 a' where
        ih: "link_text sep ?a v = b' @ [Text (u1 @ tag @ u2)] @ a'" "shown b' @ u1 = e"
        by blast
      have "link_text sep ?a t = (Text u # ?a # b') @ [Text (u1 @ tag @ u2)] @ a'"
        by (simp add: lt ih(1))
      moreover have "shown (Text u # ?a # b') @ u1 = pre"
        using ih(2) by (simp add: e(1))
      ultimately show ?thesis by blast
    qed
  qed
qed

lemma apart_bracketed:
  assumes x: "x = lb # mx @ [rb]" and y: "y = lb # my @ [rb]"
    and mx: "lb \<notin> set mx" "rb \<notin> set mx" and my: "lb \<notin> set my" "rb \<notin> set my"
    and ne: "lb \<noteq> rb"
  shows "apart x y"
  unfolding apart_def
proof (intro allI impI)
  fix p q p' q'
  assume eq: "p @ x @ q = p' @ y @ q'"
  define w where "w = p @ x @ q"
  have wx: "w ! (length p + k) = x ! k" if "k < length x" for k
    using that by (simp add: w_def nth_append)
  have wy: "w ! (length p' + k) = y ! k" if "k < length y" for k
    using that by (simp add: w_def eq nth_append)
  have inner_x: "x ! k \<in> set (mx @ [rb])" if "0 < k" "k < length x" for k
  proof -
    from that obtain j where "k = Suc j" by (cases k) auto
    with that show ?thesis
      unfolding x by (simp del: set_append)
  qed
  have inner_y: "y ! k \<in> set (my @ [rb])" if "0 < k" "k < length y" for k
  proof -
    from that obtain j where "k = Suc j" by (cases k) auto
    with that show ?thesis
      unfolding y by (simp del: set_append)
  qed
  have mid_x: "x ! k \<in> set mx" if "0 < k" "Suc k < length x" for k
  proof -
    from that obtain j where "k = Suc j" by (cases k) auto
    with that show ?thesis
      unfolding x by (simp add: nth_append)
  qed
  have mid_y: "y ! k \<in> set my" if "0 < k" "Suc k < length y" for k
  proof -
    from that obtain j where "k = Suc j" by (cases k) auto
    with that show ?thesis
      unfolding y by (simp add: nth_append)
  qed
  have x0: "x ! 0 = lb" "x ! (length x - 1) = rb" "2 \<le> length x" "0 < length x"
    unfolding x by (simp_all add: nth_append)
  have y0: "y ! 0 = lb" "y ! (length y - 1) = rb" "2 \<le> length y" "0 < length y"
    unfolding y by (simp_all add: nth_append)
  show "length p + length x \<le> length p' \<or> length p' + length y \<le> length p \<or> (p = p' \<and> x = y)"
  proof (rule ccontr)
    assume neg: "\<not> ?thesis"
    then have ov: "length p' < length p + length x" "length p < length p' + length y"
      by auto
    consider (lt) "length p < length p'" | (gt) "length p' < length p" | (eq) "length p = length p'"
      by linarith
    then show False
    proof cases
      case lt
      define d where "d = length p' - length p"
      have d: "0 < d" "d < length x" "length p' = length p + d"
        using lt ov by (auto simp: d_def)
      have "x ! d = w ! (length p' + 0)" using wx [OF d(2)] d(3) by simp
      also have "\<dots> = lb" using wy [OF y0(4)] y0(1) by simp
      finally have "lb \<in> set (mx @ [rb])" using inner_x [OF d(1,2)] by simp
      with mx ne show False by auto
    next
      case gt
      define d where "d = length p - length p'"
      have d: "0 < d" "d < length y" "length p = length p' + d"
        using gt ov by (auto simp: d_def)
      have "y ! d = w ! (length p + 0)" using wy [OF d(2)] d(3) by simp
      also have "\<dots> = lb" using wx [OF x0(4)] x0(1) by simp
      finally have "lb \<in> set (my @ [rb])" using inner_y [OF d(1,2)] by simp
      with my ne show False by auto
    next
      case eq
      with \<open>p @ x @ q = p' @ y @ q'\<close> have pp: "p = p'" and xq: "x @ q = y @ q'"
        by auto
      consider (xl) "length x < length y" | (yl) "length y < length x" | (same) "length x = length y"
        by linarith
      then show False
      proof cases
        case same
        with xq have "x = y" by auto
        with pp neg show False by simp
      next
        case xl
        have "y ! (length x - 1) = w ! (length p' + (length x - 1))"
          using wy [of "length x - 1"] xl by simp
        also have "\<dots> = x ! (length x - 1)"
          using wx [of "length x - 1"] x0(3) pp by simp
        finally have "y ! (length x - 1) = rb" using x0 by simp
        moreover have "y ! (length x - 1) \<in> set my"
          using mid_y [of "length x - 1"] xl x0(3) by simp
        ultimately show False using my by simp
      next
        case yl
        have "x ! (length y - 1) = w ! (length p + (length y - 1))"
          using wx [of "length y - 1"] yl by simp
        also have "\<dots> = y ! (length y - 1)"
          using wy [of "length y - 1"] y0(3) pp by simp
        finally have "x ! (length y - 1) = rb" using y0 by simp
        moreover have "x ! (length y - 1) \<in> set mx"
          using mid_x [of "length y - 1"] yl y0(3) by simp
        ultimately show False using mx by simp
      qed
    qed
  qed
qed

lemma unat_digit: "d < 10 \<Longrightarrow> unat (digit d) = 48 + d"
proof -
  assume d: "d < 10"
  have "unat (of_nat (48 + d) :: 16 word) = (48 + d) mod 2 ^ LENGTH(16)"
    by (rule unat_of_nat)
  also have "\<dots> = 48 + d"
    using d by simp
  finally show ?thesis
    by (simp only: digit_def)
qed

lemma show_nat_nonempty: "show_nat n \<noteq> []"
  by (subst show_nat.simps) simp

lemma show_nat_digits: "c \<in> set (show_nat n) \<Longrightarrow> 48 \<le> unat c \<and> unat c \<le> 57"
proof (induction n rule: show_nat.induct)
  case (1 n)
  show ?case
  proof (cases "n < 10")
    case True
    with "1.prems" have "c = digit n" by (subst (asm) show_nat.simps) simp
    with True show ?thesis by (simp add: unat_digit)
  next
    case False
    with "1.prems" have "c \<in> set (show_nat (n div 10)) \<or> c = digit (n mod 10)"
      by (subst (asm) show_nat.simps) auto
    then show ?thesis
    proof
      assume "c \<in> set (show_nat (n div 10))"
      with "1.IH" False show ?thesis by blast
    next
      assume "c = digit (n mod 10)"
      then show ?thesis by (simp add: unat_digit)
    qed
  qed
qed

lemma show_nat_inj: "show_nat m = show_nat n \<Longrightarrow> m = n"
proof (induction m arbitrary: n rule: show_nat.induct)
  case (1 m)
  have dn: "a = b" if "digit a = digit b" "a < 10" "b < 10" for a b
  proof -
    have "48 + a = unat (digit a)" using that(2) by (simp only: unat_digit)
    also have "\<dots> = unat (digit b)" by (simp only: that(1))
    also have "\<dots> = 48 + b" using that(3) by (simp only: unat_digit)
    finally show ?thesis by simp
  qed
  show ?case
  proof (cases "m < 10")
    case True
    show ?thesis
    proof (cases "n < 10")
      case n: True
      from "1.prems" True n have "[digit m] = [digit n]"
        by (simp add: show_nat.simps [of m] show_nat.simps [of n])
      with True n dn show ?thesis by simp
    next
      case n: False
      from "1.prems" True n have "[digit m] = show_nat (n div 10) @ [digit (n mod 10)]"
        by (simp add: show_nat.simps [of m] show_nat.simps [of n])
      with show_nat_nonempty [of "n div 10"] show ?thesis by simp
    qed
  next
    case False
    show ?thesis
    proof (cases "n < 10")
      case n: True
      from "1.prems" False n have "show_nat (m div 10) @ [digit (m mod 10)] = [digit n]"
        by (simp add: show_nat.simps [of m] show_nat.simps [of n])
      with show_nat_nonempty [of "m div 10"] show ?thesis by simp
    next
      case n: False
      from "1.prems" False n
      have "show_nat (m div 10) @ [digit (m mod 10)] = show_nat (n div 10) @ [digit (n mod 10)]"
        by (simp add: show_nat.simps [of m] show_nat.simps [of n])
      then have a: "show_nat (m div 10) = show_nat (n div 10)" and b: "digit (m mod 10) = digit (n mod 10)"
        by simp_all
      from "1.IH" [OF False a] have "m div 10 = n div 10" .
      moreover from dn [OF b] have "m mod 10 = n mod 10" by simp
      ultimately show ?thesis by (metis div_mult_mod_eq)
    qed
  qed
qed

lemma sourceTag_bracketed:
  "sourceTag i = cu CHR ''['' # (str ''Source '' @ show_nat (i + 1)) @ [cu CHR '']'']"
  by (simp add: sourceTag_def str_def)

lemma sourceTag_clean:
  "cu CHR ''['' \<notin> set (str ''Source '' @ show_nat (i + 1))"
  "cu CHR '']'' \<notin> set (str ''Source '' @ show_nat (i + 1))"
  using show_nat_digits [of "cu CHR ''[''" "i + 1"] show_nat_digits [of "cu CHR '']''" "i + 1"]
  by (auto simp: str_def cu_def)

lemma sourceTag_apart: "apart (sourceTag i) (sourceTag j)"
  by (rule apart_bracketed [OF sourceTag_bracketed sourceTag_bracketed sourceTag_clean sourceTag_clean])
    (simp add: cu_def)

lemma sourceTag_nonempty: "sourceTag i \<noteq> []"
  by (simp add: sourceTag_bracketed)

lemma sourceTag_inj: "sourceTag i = sourceTag j \<Longrightarrow> i = j"
  using show_nat_inj [of "i + 1" "j + 1"] by (simp add: sourceTag_def)

lemma link_source_unfold:
  "link_source (j, s) parts =
     concat (map (\<lambda>part. case part of
                      Text t \<Rightarrow> link_text (sourceTag j) (Anchor (url s) (title s) (sourceTag j)) t
                    | Anchor h ti l \<Rightarrow> [part]) parts)"
  by (simp add: link_source_def link_text_def Let_def cong: part.case_cong)

lemma link_source_simps:
  "link_source x [] = []"
  "link_source x (ps @ qs) = link_source x ps @ link_source x qs"
  "link_source x (Anchor h ti l # ps) = Anchor h ti l # link_source x ps"
  "link_source (j, s) (Text t # ps) =
     link_text (sourceTag j) (Anchor (url s) (title s) (sourceTag j)) t @ link_source (j, s) ps"
  by (cases x; simp add: link_source_unfold)+

lemma shown_link_source: "shown (link_source x parts) = shown parts"
proof (induction parts)
  case Nil
  then show ?case by (simp add: link_source_simps)
next
  case (Cons p parts)
  obtain j s where x: "x = (j, s)" by (cases x)
  have "link_source x (p # parts) = link_source x [p] @ link_source x parts"
    using link_source_simps(2) [of x "[p]" parts] by simp
  moreover have "shown (link_source x [p]) = shown [p]"
    by (cases p) (simp_all add: x link_source_simps shown_link_text sourceTag_nonempty)
  moreover have "shown (p # parts) = shown [p] @ shown parts"
    by (simp add: shown_def)
  ultimately show ?case using Cons by simp
qed

lemma step_linked: "linked (Anchor h ti l) pre parts \<Longrightarrow> linked (Anchor h ti l) pre (link_source x parts)"
  unfolding linked_def
proof (elim exE conjE)
  fix before after
  assume "parts = before @ [Anchor h ti l] @ after" "shown before = pre"
  then have "link_source x parts = link_source x before @ [Anchor h ti l] @ link_source x after"
    "shown (link_source x before) = pre"
    by (simp_all add: link_source_simps shown_link_source)
  then show "\<exists>before after. link_source x parts = before @ [Anchor h ti l] @ after \<and> shown before = pre"
    by blast
qed

lemma step_pending_same:
  assumes "pending (sourceTag j) pre parts"
  shows "linked (Anchor (url s) (title s) (sourceTag j)) pre (link_source (j, s) parts)"
proof -
  let ?a = "Anchor (url s) (title s) (sourceTag j)"
  from assms obtain before u1 u2 after
    where p: "parts = before @ [Text (u1 @ sourceTag j @ u2)] @ after" "shown before @ u1 = pre"
    unfolding pending_def by blast
  from linked_same [OF sourceTag_nonempty [of j] sourceTag_apart [of j j] refl,
      where pre = u1 and post = u2 and h = "url s" and ti = "title s"]
  obtain b' a' where l: "link_text (sourceTag j) ?a (u1 @ sourceTag j @ u2) = b' @ [?a] @ a'"
    "shown b' = u1"
    by blast
  have "link_source (j, s) parts =
      (link_source (j, s) before @ b') @ [?a] @ (a' @ link_source (j, s) after)"
    by (simp add: p(1) link_source_simps l(1))
  moreover have "shown (link_source (j, s) before @ b') = pre"
    by (simp add: shown_link_source l(2) p(2))
  ultimately show ?thesis
    unfolding linked_def by blast
qed

lemma step_pending_other:
  assumes "pending (sourceTag i) pre parts" "i \<noteq> j"
  shows "pending (sourceTag i) pre (link_source (j, s) parts)"
proof -
  let ?a = "Anchor (url s) (title s) (sourceTag j)"
  from assms obtain before u1 u2 after
    where p: "parts = before @ [Text (u1 @ sourceTag i @ u2)] @ after" "shown before @ u1 = pre"
    unfolding pending_def by blast
  have ne: "sourceTag j \<noteq> sourceTag i"
    using assms(2) sourceTag_inj by blast
  from pending_other [OF sourceTag_nonempty [of j] sourceTag_apart [of j i] ne refl,
      where pre = u1 and post = u2 and h = "url s" and ti = "title s"]
  obtain b' v1 v2 a'
    where l: "link_text (sourceTag j) ?a (u1 @ sourceTag i @ u2) =
        b' @ [Text (v1 @ sourceTag i @ v2)] @ a'" "shown b' @ v1 = u1"
    by blast
  have "link_source (j, s) parts =
      (link_source (j, s) before @ b') @ [Text (v1 @ sourceTag i @ v2)] @
      (a' @ link_source (j, s) after)"
    by (simp add: p(1) link_source_simps l(1))
  moreover have "shown (link_source (j, s) before @ b') @ v1 = pre"
    using l(2) p(2) by (simp add: shown_link_source)
  ultimately show ?thesis
    unfolding pending_def by blast
qed

lemma fold_linked:
  "linked (Anchor h ti l) pre parts \<Longrightarrow> linked (Anchor h ti l) pre (fold link_source xs parts)"
  by (induction xs arbitrary: parts) (simp_all add: step_linked)

lemma fold_pending:
  "pending (sourceTag i) pre parts \<Longrightarrow>
   (case find (\<lambda>x. fst x = i) xs of
      None \<Rightarrow> pending (sourceTag i) pre (fold link_source xs parts)
    | Some (j, s) \<Rightarrow>
        linked (Anchor (url s) (title s) (sourceTag i)) pre (fold link_source xs parts))"
proof (induction xs arbitrary: parts)
  case Nil
  then show ?case by simp
next
  case (Cons x xs)
  obtain j s where x: "x = (j, s)" by (cases x)
  show ?case
  proof (cases "j = i")
    case True
    with Cons.prems have "linked (Anchor (url s) (title s) (sourceTag i)) pre (link_source x parts)"
      unfolding x by (simp add: step_pending_same)
    from fold_linked [OF this] True show ?thesis
      by (simp add: x)
  next
    case False
    with Cons.prems have "pending (sourceTag i) pre (link_source x parts)"
      unfolding x by (simp add: step_pending_other)
    from Cons.IH [OF this] False show ?thesis
      by (simp add: x cong: option.case_cong)
  qed
qed

lemma find_enumerate:
  "i < length ss \<Longrightarrow> find (\<lambda>x. fst x = k + i) (enumerate k ss) = Some (k + i, ss ! i)"
proof (induction ss arbitrary: k i)
  case Nil
  then show ?case by simp
next
  case (Cons s ss)
  show ?case
  proof (cases i)
    case 0
    then show ?thesis by simp
  next
    case (Suc m)
    with Cons.prems Cons.IH [of m "Suc k"] show ?thesis by simp
  qed
qed

lemma anchors_link_text:
  assumes "sep \<noteq> []"
  shows "Anchor h ti l \<in> set (link_text sep a t) \<Longrightarrow> Anchor h ti l = a"
proof (induction t rule: length_induct)
  case (1 t)
  show ?case
  proof (cases "first_occ sep t")
    case None
    with "1.prems" show ?thesis by (simp add: link_text_None [OF assms])
  next
    case (Some uv)
    obtain u v where "uv = (u, v)" by (cases uv)
    with Some have f: "first_occ sep t = Some (u, v)" by simp
    have "length v < length t"
      using first_occ_Some [OF f] assms by (cases sep) auto
    with 1 f show ?thesis
      by (auto simp: link_text_Some [OF assms f])
  qed
qed

lemma anchors_link_source:
  "Anchor h ti l \<in> set (link_source (j, s) parts) \<Longrightarrow>
   Anchor h ti l \<in> set parts \<or> Anchor h ti l = Anchor (url s) (title s) (sourceTag j)"
proof (induction parts)
  case Nil
  then show ?case by (simp add: link_source_simps)
next
  case (Cons p parts)
  show ?case
  proof (cases p)
    case (Text t)
    with Cons show ?thesis
      using anchors_link_text [OF sourceTag_nonempty, of h ti l j _ t]
      by (auto simp: link_source_simps)
  next
    case (Anchor h' ti' l')
    with Cons show ?thesis
      by (auto simp: link_source_simps)
  qed
qed

lemma anchors_fold:
  "Anchor h ti l \<in> set (fold link_source xs parts) \<Longrightarrow>
   Anchor h ti l \<in> set parts \<or>
   (\<exists>(j, s) \<in> set xs. Anchor h ti l = Anchor (url s) (title s) (sourceTag j))"
proof (induction xs arbitrary: parts)
  case Nil
  then show ?case by simp
next
  case (Cons x xs)
  obtain j s where x: "x = (j, s)" by (cases x)
  from Cons.IH [of "link_source x parts"] Cons.prems
  have "Anchor h ti l \<in> set (link_source x parts) \<or>
    (\<exists>(j, s) \<in> set xs. Anchor h ti l = Anchor (url s) (title s) (sourceTag j))"
    by simp
  then show ?case
    using anchors_link_source [of h ti l j s parts] unfolding x by auto
qed

lemma shown_fold: "shown (fold link_source xs parts) = shown parts"
  by (induction xs arbitrary: parts) (simp_all add: shown_link_source)

lemma summary_POST_sources:
  "summary_POST (Inr p) apiKey onet otr = (\<lparr>nr_body = Json_ok d, nr_status = st\<rparr>, tr') \<Longrightarrow>
   sources d = Some (map (\<lambda>result. \<lparr>title = title result, url = url result\<rparr>) (searchResults p))"
  by (auto simp: summary_POST_def fetch_def Let_def summary_failed_def
      split: option.splits if_splits fetched.splits sum.splits list.splits)

lemma map_enumerate_index:
  "map f (enumerate 0 xs) = map (\<lambda>i. f (i, xs ! i)) [0..<length xs]"
  by (rule nth_equalityI) (simp_all add: nth_enumerate_eq)

lemma sourcesList_lines:
  "sourcesList rs =
     join nl (map (\<lambda>i. sourceTag i @ str '' '' @ title (rs ! i) @ str '' ('' @ url (rs ! i) @ str '')'')
                [0..<length rs])"
  by (simp add: sourcesList_def map_enumerate_index)

lemma render_links:
  assumes "i < length ss" "summ = pre @ sourceTag i @ post"
  shows "linked (Anchor (url (ss ! i)) (title (ss ! i)) (sourceTag i)) pre
    (fold link_source (enumerate 0 ss) [Text summ])"
proof -
  have "pending (sourceTag i) pre [Text summ]"
    unfolding pending_def assms(2)
    by (rule exI [of _ "[]"], rule exI [of _ pre], rule exI [of _ post], rule exI [of _ "[]"]) simp
  from fold_pending [OF this, of "enumerate 0 ss"] find_enumerate [OF assms(1), of 0]
  show ?thesis by simp
qed

lemma render_anchors:
  assumes "Anchor h ti l \<in> set (fold link_source (enumerate 0 ss) [Text summ])"
  shows "\<exists>i<length ss. h = url (ss ! i) \<and> ti = title (ss ! i) \<and> l = sourceTag i"
proof -
  from anchors_fold [OF assms] obtain j s
    where js: "(j, s) \<in> set (enumerate 0 ss)" "Anchor h ti l = Anchor (url s) (title s) (sourceTag j)"
    by auto
  from js(1) have "j < length ss" "s = ss ! j"
    by (auto simp: in_set_enumerate_eq)
  with js(2) show ?thesis by auto
qed

text \<open>
  What holds of the numbering for every input: the returned array, the source list as
  the route computes it, and the renderer.  The summary route returns as
  \<open>sources\<close> the title and url of
  \<open>personInfo.searchResults\<close> in order, and line \<open>i\<close> of the prompt's source
  list is \<open>[Source i]\<close>, the title and the url of \<open>searchResults[i-1]\<close>.
  \<open>renderSummaryWithLinks\<close> returns the summary itself when there are no sources;
  otherwise the parts it returns show the summary's text unchanged, every occurrence of
  \<open>[Source i]\<close> in the summary with \<open>i\<close> from 1 to the number of sources is an
  anchor at that position whose href and title are those of \<open>sources[i-1]\<close>, and
  every anchor is one of these.
\<close>

theorem source_numbering:
  "(\<forall>apiKey onet (otr :: (openai_call, unit) event list) d st tr'.
       summary_POST (Inr personInfo) apiKey onet otr = (\<lparr>nr_body = Json_ok d, nr_status = st\<rparr>, tr') \<longrightarrow>
       sources d =
         Some (map (\<lambda>r. \<lparr>title = title r, url = url r\<rparr>) (searchResults personInfo))) \<and>
   sourcesList (searchResults personInfo) =
     join nl (map (\<lambda>i. (str ''[Source '' @ show_nat (i + 1) @ str '']'') @ str '' '' @
                        title (searchResults personInfo ! i) @ str '' ('' @
                        url (searchResults personInfo ! i) @ str '')'')
                [0..<length (searchResults personInfo)]) \<and>
   renderSummaryWithLinks summ None = Plain summ \<and>
   (\<exists>parts.
      renderSummaryWithLinks summ (Some ss) = Prose parts \<and>
      shown parts = summ \<and>
      (\<forall>i pre post.
         i < length ss \<and> summ = pre @ (str ''[Source '' @ show_nat (i + 1) @ str '']'') @ post \<longrightarrow>
         (\<exists>before after.
            parts = before @
              [Anchor (url (ss ! i)) (title (ss ! i)) (str ''[Source '' @ show_nat (i + 1) @ str '']'')] @
              after \<and>
            shown before = pre)) \<and>
      (\<forall>h ti l. Anchor h ti l \<in> set parts \<longrightarrow>
         (\<exists>i<length ss. h = url (ss ! i) \<and> ti = title (ss ! i) \<and>
            l = str ''[Source '' @ show_nat (i + 1) @ str '']'')))"
proof -
  let ?parts = "fold link_source (enumerate 0 ss) [Text summ]"
  have a: "\<forall>apiKey onet (otr :: (openai_call, unit) event list) d st tr'.
       summary_POST (Inr personInfo) apiKey onet otr = (\<lparr>nr_body = Json_ok d, nr_status = st\<rparr>, tr') \<longrightarrow>
       sources d =
         Some (map (\<lambda>r. \<lparr>title = title r, url = url r\<rparr>) (searchResults personInfo))"
    using summary_POST_sources by blast
  have b: "sourcesList (searchResults personInfo) =
     join nl (map (\<lambda>i. (str ''[Source '' @ show_nat (i + 1) @ str '']'') @ str '' '' @
                        title (searchResults personInfo ! i) @ str '' ('' @
                        url (searchResults personInfo ! i) @ str '')'')
                [0..<length (searchResults personInfo)])"
    unfolding sourcesList_lines sourceTag_def ..
  have c: "renderSummaryWithLinks summ None = Plain summ"
    "renderSummaryWithLinks summ (Some ss) = Prose ?parts"
    by (simp_all add: renderSummaryWithLinks_def)
  have d: "shown ?parts = summ"
    by (simp add: shown_fold)
  have e: "\<forall>i pre post.
         i < length ss \<and> summ = pre @ sourceTag i @ post \<longrightarrow>
         (\<exists>before after.
            ?parts = before @ [Anchor (url (ss ! i)) (title (ss ! i)) (sourceTag i)] @ after \<and>
            shown before = pre)"
    using render_links [of _ ss summ] unfolding linked_def by blast
  have f: "\<forall>h ti l. Anchor h ti l \<in> set ?parts \<longrightarrow>
         (\<exists>i<length ss. h = url (ss ! i) \<and> ti = title (ss ! i) \<and> l = sourceTag i)"
    using render_anchors [of _ _ _ ss summ] by blast
  from a b c d e f show ?thesis
    unfolding sourceTag_def by blast
qed

lemma tag1: "sourceTag 0 = str ''[Source 1]''"
  by (simp add: sourceTag_def show_nat.simps digit_def str_def cu_def)

lemma render_example:
  "renderSummaryWithLinks (str ''a[Source 1]b'') (Some [\<lparr>title = str ''T'', url = str ''u''\<rparr>]) =
     Prose [Text (str ''a''), Anchor (str ''u'') (str ''T'') (str ''[Source 1]''), Text (str ''b'')]"
  by (simp add: renderSummaryWithLinks_def link_source_def tag1 Let_def)
    (simp add: split_js.simps str_def cu_def)

theorem source_numbering_witness:
  "renderSummaryWithLinks (str ''a[Source 1]b'') (Some [\<lparr>title = str ''T'', url = str ''u''\<rparr>]) =
     Prose [Text (str ''a''), Anchor (str ''u'') (str ''T'') (str ''[Source 1]''), Text (str ''b'')] \<and>
   shown [Text (str ''a''), Anchor (str ''u'') (str ''T'') (str ''[Source 1]''), Text (str ''b'')] =
     str ''a[Source 1]b''"
  using source_numbering [of "\<lparr>name = [], error = None, searchResults = []\<rparr>" "str ''a[Source 1]b''"
      "[\<lparr>title = str ''T'', url = str ''u''\<rparr>]"]
  by (simp add: render_example) (simp add: str_def)

lemma first_occ_fresh:
  "sep \<noteq> [] \<Longrightarrow> hd sep \<notin> set a \<Longrightarrow> first_occ sep (a @ sep @ b) = Some (a, b)"
proof (induction a)
  case Nil
  then show ?case
    by (cases sep) (simp_all add: strip_prefix_Some split: option.splits)
next
  case (Cons x a)
  from Cons.prems obtain c cs where sep: "sep = c # cs" and x: "c \<noteq> x" and a: "c \<notin> set a"
    by (cases sep) auto
  have "strip_prefix sep (x # a @ sep @ b) = None"
    using x by (simp add: sep)
  moreover have "first_occ sep (a @ sep @ b) = Some (a, b)"
    using Cons.IH Cons.prems(1) a by (simp add: sep)
  ultimately show ?case
    by simp
qed

lemma expand_plain:
  "cu CHR ''$'' \<notin> set r \<Longrightarrow> expand_replacement m a b r = r"
  by (induction m a b r rule: expand_replacement.induct) auto

lemma prompt_split:
  "SUMMARY_PROMPT = prompt_head @ str ''{{SOURCES}}'' @ prompt_mid @ str ''{{TEXT}}''"
  by (simp add: SUMMARY_PROMPT_def prompt_head_def prompt_mid_def)

lemma prompt_head_plain: "cu CHR ''{'' \<notin> set prompt_head"
  by (simp add: prompt_head_def nl_def dq_def str_def cu_def)

lemma prompt_mid_plain: "cu CHR ''{'' \<notin> set prompt_mid"
  by (simp add: prompt_mid_def nl_def str_def cu_def)

lemma brace: "cu CHR ''{'' = 123"
  by (simp add: cu_def)

lemma js_replace_sources:
  "js_replace (str ''{{SOURCES}}'') rep SUMMARY_PROMPT =
     prompt_head @
     expand_replacement (str ''{{SOURCES}}'') prompt_head (prompt_mid @ str ''{{TEXT}}'') rep @
     prompt_mid @ str ''{{TEXT}}''"
proof -
  have "first_occ (str ''{{SOURCES}}'') SUMMARY_PROMPT =
      Some (prompt_head, prompt_mid @ str ''{{TEXT}}'')"
    unfolding prompt_split
    by (rule first_occ_fresh) (simp_all add: prompt_head_plain [unfolded brace] str_def cu_def)
  then show ?thesis
    by (simp add: js_replace_def)
qed

lemma js_replace_text:
  assumes "cu CHR ''{'' \<notin> set s"
  shows "js_replace (str ''{{TEXT}}'') rep (prompt_head @ s @ prompt_mid @ str ''{{TEXT}}'') =
     prompt_head @ s @ prompt_mid @
     expand_replacement (str ''{{TEXT}}'') (prompt_head @ s @ prompt_mid) [] rep"
proof -
  have "first_occ (str ''{{TEXT}}'') ((prompt_head @ s @ prompt_mid) @ str ''{{TEXT}}'' @ []) =
      Some (prompt_head @ s @ prompt_mid, [])"
    by (rule first_occ_fresh)
      (use assms [unfolded brace] in \<open>simp_all add: prompt_head_plain [unfolded brace]
        prompt_mid_plain [unfolded brace] str_def cu_def\<close>)
  then show ?thesis
    by (simp add: js_replace_def)
qed

lemma finalPrompt_plain:
  assumes "cu CHR ''$'' \<notin> set (sourcesList rs)" "cu CHR ''{'' \<notin> set (sourcesList rs)"
    "cu CHR ''$'' \<notin> set (combinedText rs)"
  shows "finalPrompt rs = prompt_head @ sourcesList rs @ prompt_mid @ combinedText rs"
  unfolding finalPrompt_def js_replace_sources expand_plain [OF assms(1)]
    js_replace_text [OF assms(2)] expand_plain [OF assms(3)] ..

lemma dollar_sources: "sourcesList [dollar_result] = str ''[Source 1] Earn $$ now (https://x.org/a)''"
  by (simp add: sourcesList_def dollar_result_def tag1) (simp add: str_def)

lemma dollar_text: "combinedText [dollar_result] = str ''[Source 1]'' @ nl @ str ''t''"
  by (simp add: combinedText_def dollar_result_def tag1)

lemma dollar_expand:
  "expand_replacement m a b (str ''[Source 1] Earn $$ now (https://x.org/a)'') =
     str ''[Source 1] Earn $ now (https://x.org/a)''"
  by (simp add: str_def cu_def)

text \<open>
  C9.  The tag \<open>[Source i]\<close> is to denote the title and url of
  \<open>searchResults[i-1]\<close> in the prompt's source list as it does in the returned
  \<open>sources\<close> array.  The route puts the source list into the prompt with
  \<open>String.prototype.replace\<close>, which expands \<open>$$\<close>, \<open>$&\<close>, \<open>$`\<close> and
  \<open>$'\<close> in the text it inserts.  For one search result titled \<open>Earn $$ now\<close>
  the source list is \<open>[Source 1] Earn $$ now (https://x.org/a)\<close>, but the prompt
  that is sent lists \<open>[Source 1] Earn $ now (https://x.org/a)\<close>: it is not the
  template with the source list and the texts in the place of the two placeholders.
\<close>

theorem finalPrompt_dollar:
  "title dollar_result = str ''Earn $$ now'' \<and>
   sourcesList [dollar_result] = str ''[Source 1] Earn $$ now (https://x.org/a)'' \<and>
   finalPrompt [dollar_result] =
     prompt_head @ str ''[Source 1] Earn $ now (https://x.org/a)'' @ prompt_mid @
     str ''[Source 1]'' @ nl @ str ''t'' \<and>
   finalPrompt [dollar_result] \<noteq>
     prompt_head @ sourcesList [dollar_result] @ prompt_mid @ combinedText [dollar_result]"
proof -
  have plain: "cu CHR ''{'' \<notin> set (str ''[Source 1] Earn $ now (https://x.org/a)'')"
    by (simp add: str_def cu_def)
  have text_plain: "cu CHR ''$'' \<notin> set (str ''[Source 1]'' @ nl @ str ''t'')"
    by (simp add: str_def cu_def nl_def)
  have fp: "finalPrompt [dollar_result] =
     prompt_head @ str ''[Source 1] Earn $ now (https://x.org/a)'' @ prompt_mid @
     str ''[Source 1]'' @ nl @ str ''t''"
    unfolding finalPrompt_def js_replace_sources dollar_sources dollar_expand dollar_text
      js_replace_text [OF plain] expand_plain [OF text_plain] ..
  have "str ''[Source 1] Earn $ now (https://x.org/a)'' @ prompt_mid @ str ''[Source 1]'' @ nl @ str ''t'' \<noteq>
      str ''[Source 1] Earn $$ now (https://x.org/a)'' @ prompt_mid @ str ''[Source 1]'' @ nl @ str ''t''"
    by (simp add: str_def cu_def)
  then show ?thesis
    unfolding fp dollar_sources dollar_text
    by (simp add: dollar_result_def)
qed

subsection \<open>C7: the calendar grid\<close>



















lemma length_upto_int: "length [a..b] = nat (b + 1 - a)"
  by simp













end
